theory Spec2Isabelle
  imports Main "HOL-Library.Multiset" "HOL-Library.Word"
begin

section \<open>Tensors, element types and the library operations the shuffle uses\<close>

text \<open>
  The element types of tensors: the nine keys of \<open>DATA_TYPE_ID\<close> (dataset_utils.py, lines
  17-32), in the order of the enumerated list, and \<open>Complex128\<close>, an element type of torch
  and numpy that is not a key of the table.
\<close>

datatype dtype =
  Float32 | Float64 | Float16 | UInt8 | Int8 | Int16 | Int32 | Int64 | Bool | Complex128

text \<open>
  The exceptions the code can raise. \<open>SchemaError\<close> is the name the specification uses;
  no statement of dataset_utils.py raises it.
\<close>

datatype py_error =
  AssertionError | ValueError | KeyError | IndexError | RuntimeError | SchemaError

text \<open>The dictionary \<open>DATA_TYPE_ID\<close>; \<open>None\<close> is a key that is absent.\<close>

fun DATA_TYPE_ID :: "dtype \<Rightarrow> nat option" where
  "DATA_TYPE_ID Float32 = Some 0"
| "DATA_TYPE_ID Float64 = Some 1"
| "DATA_TYPE_ID Float16 = Some 2"
| "DATA_TYPE_ID UInt8 = Some 3"
| "DATA_TYPE_ID Int8 = Some 4"
| "DATA_TYPE_ID Int16 = Some 5"
| "DATA_TYPE_ID Int32 = Some 6"
| "DATA_TYPE_ID Int64 = Some 7"
| "DATA_TYPE_ID Bool = Some 8"
| "DATA_TYPE_ID Complex128 = None"

text \<open>The dictionary \<open>REV_DATA_TYPE_ID\<close> (line 35), the table read backwards.\<close>

definition REV_DATA_TYPE_ID :: "nat \<Rightarrow> dtype option" where
  "REV_DATA_TYPE_ID i =
     map_of (concat (map (\<lambda>d. case DATA_TYPE_ID d of None \<Rightarrow> [] | Some k \<Rightarrow> [(k, d)])
       [Float32, Float64, Float16, UInt8, Int8, Int16, Int32, Int64, Bool, Complex128])) i"

text \<open>
  A tensor of at least one dimension: \<open>trows\<close> are its rows along the first dimension and
  \<open>tdim\<close> the dimensions after the first, so that \<open>tdim = []\<close> is the shape \<open>(n,)\<close>,
  \<open>tdim = [d]\<close> the shape \<open>(n, d)\<close>, and a longer list a tensor of three dimensions or more,
  with \<open>n\<close> the number of rows. A row is a value of the type parameter (a scalar for one
  dimension, a vector for two).
\<close>

record 'a tensor =
  tdim :: "nat list"
  tdtype :: dtype
  trows :: "'a list"

text \<open>\<open>torch.zeros((0,), dtype)\<close> and \<open>torch.zeros((0, data_dim), dtype)\<close> of lines 106-109.\<close>

definition zeros_placeholder :: "nat \<Rightarrow> dtype \<Rightarrow> 'a tensor" where
  "zeros_placeholder data_dim data_type =
     (if data_dim = 1 then \<lparr>tdim = [], tdtype = data_type, trows = []\<rparr>
      else \<lparr>tdim = [data_dim], tdtype = data_type, trows = []\<rparr>)"

text \<open>
  \<open>tensor.to(dtype=...)\<close>: the conversion of one row from a source to a target element type
  is torch's, taken as the parameter \<open>cast\<close>.
\<close>

definition to_dtype :: "(dtype \<Rightarrow> dtype \<Rightarrow> 'a \<Rightarrow> 'a) \<Rightarrow> dtype \<Rightarrow> 'a tensor \<Rightarrow> 'a tensor" where
  "to_dtype cast dt t = t\<lparr>tdtype := dt, trows := map (cast (tdtype t) dt) (trows t)\<rparr>"

text \<open>
  Python's slice \<open>xs[s:e]\<close>: a negative bound counts from the end, and both bounds are
  clamped to the list.
\<close>

definition py_bound :: "nat \<Rightarrow> int \<Rightarrow> nat" where
  "py_bound n i = (if i < 0 then nat (max 0 (int n + i)) else min n (nat i))"

definition py_slice :: "'a list \<Rightarrow> int \<Rightarrow> int \<Rightarrow> 'a list" where
  "py_slice xs s e = take (py_bound (length xs) e - py_bound (length xs) s)
                       (drop (py_bound (length xs) s) xs)"

definition tslice :: "'a tensor \<Rightarrow> int \<Rightarrow> int \<Rightarrow> 'a tensor" where
  "tslice t s e = t\<lparr>trows := py_slice (trows t) s e\<rparr>"

text \<open>
  torch's type promotion: equal types stay, the complex type wins over every other, a
  floating type wins over an integral one, \<open>Bool\<close> is the least type, and \<open>UInt8\<close> with a
  signed type gives the signed type of at least 16 bits.
\<close>

fun float_rank :: "dtype \<Rightarrow> nat" where
  "float_rank Float16 = 1"
| "float_rank Float32 = 2"
| "float_rank Float64 = 3"
| "float_rank _ = 0"

fun int_rank :: "dtype \<Rightarrow> nat" where
  "int_rank Int8 = 1"
| "int_rank Int16 = 2"
| "int_rank Int32 = 3"
| "int_rank Int64 = 4"
| "int_rank _ = 0"

definition promote_types :: "dtype \<Rightarrow> dtype \<Rightarrow> dtype" where
  "promote_types a b =
     (if a = b then a
      else if a = Complex128 \<or> b = Complex128 then Complex128
      else if float_rank a > 0 \<or> float_rank b > 0 then
        (if float_rank a \<ge> float_rank b then a else b)
      else if a = Bool then b
      else if b = Bool then a
      else if a = UInt8 then (if b = Int8 then Int16 else b)
      else if b = UInt8 then (if a = Int8 then Int16 else a)
      else if int_rank a \<ge> int_rank b then a else b)"

text \<open>
  \<open>torch.cat\<close> along dimension 0. An empty list is an error; a tensor of shape \<open>(0,)\<close> is
  skipped whatever the others look like; the tensors left must agree in the number of
  dimensions and in the width, or the call raises; the result has the promoted element type.
\<close>

definition legacy_empty :: "'a tensor \<Rightarrow> bool" where
  "legacy_empty t = (tdim t = [] \<and> trows t = [])"

definition torch_cat :: "'a tensor list \<Rightarrow> py_error + 'a tensor" where
  "torch_cat ts =
     (case ts of
        [] \<Rightarrow> Inl RuntimeError
      | t0 # rest \<Rightarrow>
          (let dt = foldl promote_types (tdtype t0) (map tdtype rest) in
           (case filter (\<lambda>t. \<not> legacy_empty t) ts of
              [] \<Rightarrow> Inr \<lparr>tdim = [], tdtype = dt, trows = []\<rparr>
            | u # us \<Rightarrow>
                if \<forall>v \<in> set us. tdim v = tdim u
                then Inr \<lparr>tdim = tdim u, tdtype = dt, trows = concat (map trows (u # us))\<rparr>
                else Inl RuntimeError)))"

section \<open>The shuffle\<close>

text \<open>
  Modelled from the spec: \<open>map_partid_rank\<close> of utils.py, which is not among the sources.
  The partition ownership map is the deterministic function
  \<open>rank = partition_id mod world_size\<close>.
\<close>

definition map_partid_rank :: "nat \<Rightarrow> nat \<Rightarrow> nat" where
  "map_partid_rank partid world_size = partid mod world_size"

text \<open>
  Lines 103-111: one tensor per target rank, a placeholder where nothing was collected,
  the concatenated slices cast to rank 0's element type otherwise.
\<close>

definition data_input_entry ::
  "(dtype \<Rightarrow> dtype \<Rightarrow> 'a \<Rightarrow> 'a) \<Rightarrow> nat \<Rightarrow> dtype \<Rightarrow> 'a tensor list option \<Rightarrow> py_error + 'a tensor" where
  "data_input_entry cast data_dim data_type entry =
     (case entry of
        None \<Rightarrow> Inr (zeros_placeholder data_dim data_type)
      | Some sl \<Rightarrow>
          if length sl = 0 then Inr (zeros_placeholder data_dim data_type)
          else (case torch_cat sl of
                  Inl e \<Rightarrow> Inl e
                | Inr t \<Rightarrow> Inr (to_dtype cast data_type t)))"

fun collect :: "(py_error + 'b) list \<Rightarrow> py_error + 'b list" where
  "collect [] = Inr []"
| "collect (x # xs) =
     (case x of
        Inl e \<Rightarrow> Inl e
      | Inr v \<Rightarrow> (case collect xs of Inl e \<Rightarrow> Inl e | Inr vs \<Rightarrow> Inr (v # vs)))"

text \<open>
  Lines 66-74: the descriptor a rank contributes to the all-gather. The assertion of lines
  66-69 fails unless the tensor has one or two dimensions; the shape is taken as a list,
  \<open>1\<close> is appended to the shape of a one-dimensional tensor, and the id of the element type
  is appended, which raises KeyError for an element type that is not in the table.
\<close>

definition data_shape_of :: "'a tensor \<Rightarrow> py_error + nat list" where
  "data_shape_of data =
     (let shape = length (trows data) # tdim data in
      if length shape \<notin> {1, 2} then Inl AssertionError
      else
        (let data_shape = (if length shape = 1 then shape @ [1] else shape) in
         case DATA_TYPE_ID (tdtype data) of
           None \<Rightarrow> Inl KeyError
         | Some i \<Rightarrow> Inr (data_shape @ [i])))"

text \<open>
  \<open>dist.all_gather\<close> (line 79): every rank receives the descriptors of all ranks, in rank
  order. The world is the list of the ranks' local tensors; a rank that raised before the
  call never joins it, and the call fails on the others.
\<close>

definition all_gather :: "'a tensor list \<Rightarrow> py_error + nat list list" where
  "all_gather datas =
     (case collect (map data_shape_of datas) of
        Inl e \<Rightarrow> Inl RuntimeError
      | Inr data_shape_output \<Rightarrow> Inr data_shape_output)"

text \<open>\<open>np.cumsum\<close>.\<close>

fun cumsum_from :: "int \<Rightarrow> int list \<Rightarrow> int list" where
  "cumsum_from acc [] = []"
| "cumsum_from acc (x # xs) = (acc + x) # cumsum_from (acc + x) xs"

definition cumsum :: "int list \<Rightarrow> int list" where
  "cumsum xs = cumsum_from 0 xs"

text \<open>Lines 84-86.\<close>

definition data_lines_of :: "nat list list \<Rightarrow> int list" where
  "data_lines_of data_shape_output = cumsum (0 # map (\<lambda>data_shape. int (data_shape ! 0)) data_shape_output)"

text \<open>
  Lines 91-102, the loop over \<open>range(num_parts)\<close>; \<open>data_list\<close> holds, per target rank,
  \<open>None\<close> or the list of slices appended so far. \<open>tids[local_part_id]\<close> raises IndexError
  beyond the list.
\<close>

fun scatter_loop ::
  "'a tensor \<Rightarrow> nat \<Rightarrow> nat \<Rightarrow> (int \<times> int) list \<Rightarrow> int list \<Rightarrow> nat list \<Rightarrow>
   'a tensor list option list \<Rightarrow> py_error + 'a tensor list option list" where
  "scatter_loop data rank world_size tids data_lines [] data_list = Inr data_list"
| "scatter_loop data rank world_size tids data_lines (local_part_id # ps) data_list =
     (let target_rank = map_partid_rank local_part_id world_size in
      if local_part_id \<ge> length tids then Inl IndexError
      else
        (let (start, end) = tids ! local_part_id;
             global_start = data_lines ! rank;
             global_end = data_lines ! (rank + 1)
         in if start \<ge> global_end \<or> end \<le> global_start
            then scatter_loop data rank world_size tids data_lines ps data_list
            else
              (let read_start = max 0 (start - global_start);
                   read_end = min (int (length (trows data))) (end - global_start);
                   sofar = (case data_list ! target_rank of None \<Rightarrow> [] | Some l \<Rightarrow> l)
               in scatter_loop data rank world_size tids data_lines ps
                    (data_list[target_rank := Some (sofar @ [tslice data read_start read_end])]))))"

text \<open>Lines 89-102.\<close>

definition scatter_lists ::
  "'a tensor \<Rightarrow> nat \<Rightarrow> nat \<Rightarrow> (int \<times> int) list \<Rightarrow> nat \<Rightarrow> int list \<Rightarrow>
   py_error + 'a tensor list option list" where
  "scatter_lists data rank world_size tids num_parts data_lines =
     (if length (trows data) > 0
      then scatter_loop data rank world_size tids data_lines [0..<num_parts]
             (replicate world_size None)
      else Inr (replicate world_size None))"

text \<open>
  Lines 66-119 on one rank, up to the exchange: the list handed to the all-to-all (with the
  rank's own entry replaced by a placeholder) and the slice the rank keeps for itself.
\<close>

definition prepare ::
  "(dtype \<Rightarrow> dtype \<Rightarrow> 'a \<Rightarrow> 'a) \<Rightarrow> 'a tensor list \<Rightarrow> nat \<Rightarrow> nat \<Rightarrow> (int \<times> int) list \<Rightarrow> nat \<Rightarrow>
   py_error + ('a tensor list \<times> 'a tensor)" where
  "prepare cast datas rank world_size tids num_parts =
     (let data = datas ! rank in
      case data_shape_of data of
        Inl e \<Rightarrow> Inl e
      | Inr data_shape \<Rightarrow>
         (case all_gather datas of
            Inl e \<Rightarrow> Inl e
          | Inr data_shape_output \<Rightarrow>
             if world_size = 0 then Inl IndexError
             else
              (let data_dim = data_shape_output ! 0 ! 1 in
               case REV_DATA_TYPE_ID (data_shape_output ! 0 ! 2) of
                 None \<Rightarrow> Inl KeyError
               | Some data_type \<Rightarrow>
                  (let data_lines = data_lines_of data_shape_output in
                   case scatter_lists data rank world_size tids num_parts data_lines of
                     Inl e \<Rightarrow> Inl e
                   | Inr data_list \<Rightarrow>
                      (case collect (map (data_input_entry cast data_dim data_type) data_list) of
                         Inl e \<Rightarrow> Inl e
                       | Inr data_input \<Rightarrow>
                           Inr (data_input[rank := zeros_placeholder data_dim data_type],
                                data_input ! rank))))))"

text \<open>
  Modelled from the spec: \<open>alltoallv_cpu\<close> of gloo_wrapper.py, which is not among the
  sources. The variable-length all-to-all accepts a per-destination list and returns a
  per-source list of the received buffers, preserving element type and row width; a rank
  that sent nothing leaves a \<open>None\<close> placeholder. \<open>sent\<close> holds the lists the ranks hand in.
\<close>

definition alltoallv_cpu :: "nat \<Rightarrow> nat \<Rightarrow> 'a tensor list list \<Rightarrow> 'a tensor option list" where
  "alltoallv_cpu rank world_size sent =
     map (\<lambda>src. let t = sent ! src ! rank in if trows t = [] then None else Some t)
       [0..<world_size]"

text \<open>
  \<open>_shuffle_data\<close> (lines 38-127) on rank \<open>rank\<close> of the world \<open>datas\<close>, whose entry
  \<open>datas ! rank\<close> is the argument \<open>data\<close>. The process group has \<open>world_size\<close> members and
  \<open>rank\<close> is one of them, or the collective calls fail; a peer that raises before the
  exchange makes it fail as well.
\<close>

definition shuffle_data ::
  "(dtype \<Rightarrow> dtype \<Rightarrow> 'a \<Rightarrow> 'a) \<Rightarrow> 'a tensor list \<Rightarrow> nat \<Rightarrow> nat \<Rightarrow> (int \<times> int) list \<Rightarrow> nat \<Rightarrow>
   py_error + 'a tensor" where
  "shuffle_data cast datas rank world_size tids num_parts =
     (if length datas \<noteq> world_size \<or> rank \<ge> world_size then Inl RuntimeError
      else
        (case prepare cast datas rank world_size tids num_parts of
           Inl e \<Rightarrow> Inl e
         | Inr (data_input, local_data) \<Rightarrow>
            (case collect (map (\<lambda>src. prepare cast datas src world_size tids num_parts)
                             [0..<world_size]) of
               Inl e \<Rightarrow> Inl RuntimeError
             | Inr prepared \<Rightarrow>
                (let data_output = alltoallv_cpu rank world_size (map fst prepared);
                     data_output = data_output[rank := Some local_data];
                     data_output = map the (filter (\<lambda>data. data \<noteq> None) data_output)
                 in torch_cat data_output))))"

text \<open>
  \<open>get_dataset\<close>, lines 303-315 and 439-451: the loop that cuts the shuffled tensor into
  one block per partition the rank owns, in ascending partition order. It yields, for every
  partition visited, the partition, its block and the one-element list of its id range;
  the caller stores block and list under the partition's key.
\<close>

fun collect_loop ::
  "'a tensor \<Rightarrow> nat \<Rightarrow> nat \<Rightarrow> (int \<times> int) list \<Rightarrow> nat list \<Rightarrow> int \<Rightarrow>
   py_error + (nat \<times> 'a tensor \<times> (int \<times> int) list) list" where
  "collect_loop node_data rank world_size tids [] offset = Inr []"
| "collect_loop node_data rank world_size tids (local_part_id # ps) offset =
     (if map_partid_rank local_part_id world_size = rank then
        (if local_part_id \<ge> length tids then Inl IndexError
         else
           (let (start, end) = tids ! local_part_id;
                nfeat = tslice node_data offset (offset + end - start);
                nfeat_tids = [tids ! local_part_id]
            in case collect_loop node_data rank world_size tids ps (offset + (end - start)) of
                 Inl e \<Rightarrow> Inl e
               | Inr rest \<Rightarrow> Inr ((local_part_id, nfeat, nfeat_tids) # rest)))
      else collect_loop node_data rank world_size tids ps offset)"

text \<open>
  torch's conversion of a row that is an integer, used for the examples. Between the
  integral element types: the same type leaves the value, \<open>Bool\<close> keeps whether it is
  nonzero, an unsigned or signed type of \<open>w\<close> bits keeps the value modulo \<open>2 ^ w\<close>. To a
  floating or complex type the integer is kept, which is torch's result as long as the type
  represents it exactly; from a floating or complex type the integer is kept as well, which
  is torch's result as long as it lies in the range of the target (beyond it the conversion
  is not defined by torch). The examples stay within these bounds.
\<close>

definition int_cast :: "dtype \<Rightarrow> dtype \<Rightarrow> int \<Rightarrow> int" where
  "int_cast src dst x =
     (if src = dst then x
      else if float_rank src > 0 \<or> src = Complex128 then
        (if dst = Bool then (if x = 0 then 0 else 1) else x)
      else case dst of
        Bool \<Rightarrow> (if x = 0 then 0 else 1)
      | UInt8 \<Rightarrow> x mod 256
      | Int8 \<Rightarrow> (x + 128) mod 256 - 128
      | Int16 \<Rightarrow> (x + 32768) mod 65536 - 32768
      | Int32 \<Rightarrow> (x + 2147483648) mod 4294967296 - 2147483648
      | Int64 \<Rightarrow> (x + 9223372036854775808) mod 18446744073709551616 - 9223372036854775808
      | _ \<Rightarrow> x)"

section \<open>Auxiliary notions for the proofs\<close>

text \<open>
  The width a tensor of one or two dimensions announces in its descriptor: the second entry
  of \<open>data_shape\<close>, which is 1 for a one-dimensional tensor.
\<close>

definition data_dim_of :: "'a tensor \<Rightarrow> nat" where
  "data_dim_of t = (case tdim t of [] \<Rightarrow> 1 | d # _ \<Rightarrow> d)"

text \<open>
  The tensors \<open>_shuffle_data\<close> accepts: one or two dimensions (lines 66-69) and an element
  type of the table (line 73).
\<close>

definition supported :: "'a tensor \<Rightarrow> bool" where
  "supported t = (length (tdim t) \<le> 1 \<and> DATA_TYPE_ID (tdtype t) \<noteq> None)"

text \<open>The cumulative row counts \<open>data_lines\<close> of lines 84-86, from the world.\<close>

definition lines_of :: "'a tensor list \<Rightarrow> int list" where
  "lines_of datas = data_lines_of (map (\<lambda>t. [length (trows t)]) datas)"

text \<open>
  The number of rows held by the ranks before \<open>s\<close>: the position of rank \<open>s\<close>'s first
  row in the virtual concatenation of all local arrays in rank order.
\<close>

definition row_offset :: "'a tensor list \<Rightarrow> nat \<Rightarrow> nat" where
  "row_offset datas s = length (concat (map trows (take s datas)))"

text \<open>
  The slices a rank appends for target rank \<open>t\<close> while its loop runs over the
  partitions \<open>ps\<close> (lines 91-102), in the order of the loop.
\<close>

definition slices_for ::
  "'a tensor \<Rightarrow> nat \<Rightarrow> nat \<Rightarrow> (int \<times> int) list \<Rightarrow> int list \<Rightarrow> nat \<Rightarrow> nat list \<Rightarrow> 'a tensor list" where
  "slices_for data rank world_size tids data_lines t ps =
     map (\<lambda>p. tslice data (max 0 (fst (tids ! p) - data_lines ! rank))
                 (min (int (length (trows data))) (snd (tids ! p) - data_lines ! rank)))
       (filter (\<lambda>p. map_partid_rank p world_size = t \<and>
                     \<not> (fst (tids ! p) \<ge> data_lines ! (rank + 1) \<or> snd (tids ! p) \<le> data_lines ! rank))
          ps)"

text \<open>
  The tensor rank \<open>s\<close> builds for target rank \<open>t\<close> (lines 103-111), before its own entry is
  set aside: a placeholder of rank 0's width and element type, or its slices for \<open>t\<close>
  concatenated and cast to rank 0's element type.
\<close>

definition send_entry ::
  "(dtype \<Rightarrow> dtype \<Rightarrow> 'a \<Rightarrow> 'a) \<Rightarrow> 'a tensor list \<Rightarrow> nat \<Rightarrow> (int \<times> int) list \<Rightarrow> nat \<Rightarrow>
   nat \<Rightarrow> nat \<Rightarrow> 'a tensor" where
  "send_entry cast datas world_size tids num_parts s t =
     (let data = datas ! s;
          sl = slices_for data s world_size tids (lines_of datas) t [0..<num_parts]
      in if trows data = [] \<or> sl = []
         then zeros_placeholder (data_dim_of (datas ! 0)) (tdtype (datas ! 0))
         else to_dtype cast (tdtype (datas ! 0))
                \<lparr>tdim = tdim data, tdtype = tdtype data, trows = concat (map trows sl)\<rparr>)"

text \<open>
  The tensors rank \<open>r\<close> concatenates at the end (lines 122-125), in ascending source rank:
  its own slice at its own position, and from every peer what the peer built for \<open>r\<close>,
  unless that has no rows.
\<close>

definition received ::
  "(dtype \<Rightarrow> dtype \<Rightarrow> 'a \<Rightarrow> 'a) \<Rightarrow> 'a tensor list \<Rightarrow> (int \<times> int) list \<Rightarrow> nat \<Rightarrow> nat \<Rightarrow>
   'a tensor list" where
  "received cast datas tids num_parts r =
     map (\<lambda>s. send_entry cast datas (length datas) tids num_parts s r)
       (filter (\<lambda>s. s = r \<or> trows (send_entry cast datas (length datas) tids num_parts s r) \<noteq> [])
          [0..<length datas])"

text \<open>The virtual concatenation of all ranks' local arrays in rank order.\<close>

definition all_rows :: "'a tensor list \<Rightarrow> 'a list" where
  "all_rows datas = concat (map trows datas)"

text \<open>
  The positions, in the virtual concatenation, of the rows rank \<open>s\<close> holds of partition
  \<open>p\<close>: the id range of \<open>p\<close> cut to the span of rank \<open>s\<close>.
\<close>

definition span_idx :: "'a tensor list \<Rightarrow> (int \<times> int) list \<Rightarrow> nat \<Rightarrow> nat \<Rightarrow> nat list" where
  "span_idx datas tids s p =
     [min (row_offset datas (Suc s)) (max (row_offset datas s) (nat (fst (tids ! p)))) ..<
      min (row_offset datas (Suc s)) (max (row_offset datas s) (nat (snd (tids ! p))))]"

text \<open>The partitions rank \<open>r\<close> owns, in ascending order.\<close>

definition owned :: "nat \<Rightarrow> nat \<Rightarrow> nat \<Rightarrow> nat list" where
  "owned world_size num_parts r = filter (\<lambda>p. map_partid_rank p world_size = r) [0..<num_parts]"

text \<open>
  The id ranges are ascending and do not overlap: every range ends where a later one
  starts, or before.
\<close>

definition ascending_tids :: "(int \<times> int) list \<Rightarrow> bool" where
  "ascending_tids tids = sorted_wrt (\<lambda>x y. snd x \<le> fst y) tids"

text \<open>
  The id ranges are contiguous from \<open>a\<close> to \<open>b\<close>: the first starts at \<open>a\<close>, each starts
  where its predecessor ends, none is reversed, and the last ends at \<open>b\<close>.
\<close>

fun chain_ranges :: "int \<Rightarrow> (int \<times> int) list \<Rightarrow> int \<Rightarrow> bool" where
  "chain_ranges a [] b = (a = b)"
| "chain_ranges a ((s, e) # rest) b = (s = a \<and> s \<le> e \<and> chain_ranges e rest b)"

text \<open>
  The precondition of the shuffle on its id ranges: contiguous, non-overlapping, and
  covering the virtual concatenation of all ranks' local arrays.
\<close>

definition valid_tids :: "(int \<times> int) list \<Rightarrow> 'a tensor list \<Rightarrow> bool" where
  "valid_tids tids datas = chain_ranges 0 tids (int (length (all_rows datas)))"

text \<open>
  The virtual concatenation after every rank's rows are cast to rank 0's element type, as
  line 111 casts them.
\<close>

definition cast_rows :: "(dtype \<Rightarrow> dtype \<Rightarrow> 'a \<Rightarrow> 'a) \<Rightarrow> 'a tensor list \<Rightarrow> 'a list" where
  "cast_rows cast datas =
     concat (map (\<lambda>t. map (cast (tdtype t) (tdtype (datas ! 0))) (trows t)) datas)"

section \<open>The dataset assembler\<close>

text \<open>
  A Python dictionary, in insertion order: assigning to a key that is present replaces the
  value in place, assigning to a new key appends the entry.
\<close>

type_synonym 'v dict = "(string \<times> 'v) list"

fun dict_set :: "'v dict \<Rightarrow> string \<Rightarrow> 'v \<Rightarrow> 'v dict" where
  "dict_set [] k v = [(k, v)]"
| "dict_set ((k', v') # d) k v = (if k' = k then (k, v) # d else (k', v') # dict_set d k v)"

definition dict_get :: "'v dict \<Rightarrow> string \<Rightarrow> py_error + 'v" where
  "dict_get d k = (case map_of d k of None \<Rightarrow> Inl KeyError | Some v \<Rightarrow> Inr v)"


text \<open>The decimal numeral of a natural number, as an f-string prints it.\<close>

definition digit_char :: "nat \<Rightarrow> char" where
  "digit_char d = ''0123456789'' ! d"

fun str_of_nat :: "nat \<Rightarrow> string" where
  "str_of_nat n = (if n < 10 then [digit_char n] else str_of_nat (n div 10) @ [digit_char (n mod 10)])"










text \<open>The calls of \<open>logging\<close>: the level and what the message is built from.\<close>

datatype log_level = DEBUG | INFO | WARNING | ERROR


































section \<open>Library operations and the row offsets\<close>

lemma cumsum_from_nth:
  "i < length xs \<Longrightarrow> cumsum_from acc xs ! i = acc + sum_list (take (Suc i) xs)"
proof (induction xs arbitrary: acc i)
  case Nil
  then show ?case by simp
next
  case (Cons x xs)
  then show ?case by (cases i) (simp_all add: add.assoc)
qed

lemma int_sum_list_map: "int (sum_list (map f xs)) = sum_list (map (\<lambda>x. int (f x)) xs)"
  by (induction xs) simp_all

lemma data_lines_nth:
  assumes "s \<le> length datas"
  shows "lines_of datas ! s = int (row_offset datas s)"
proof (cases s)
  case 0
  then show ?thesis
    by (simp add: lines_of_def data_lines_of_def cumsum_def row_offset_def)
next
  case (Suc k)
  let ?cs = "map (\<lambda>t. int (length (trows t))) datas"
  have k: "k < length ?cs" using assms Suc by simp
  have "lines_of datas ! s = cumsum_from 0 ?cs ! k"
    using Suc by (simp add: lines_of_def data_lines_of_def cumsum_def comp_def)
  also have "\<dots> = sum_list (take s ?cs)"
    using cumsum_from_nth[OF k, of 0] Suc by simp
  also have "\<dots> = int (row_offset datas s)"
    by (simp add: row_offset_def length_concat comp_def take_map int_sum_list_map)
  finally show ?thesis .
qed

lemma foldl_promote_same: "\<forall>d\<in>set ds. d = dt \<Longrightarrow> foldl promote_types dt ds = dt"
  by (induction ds) (simp_all add: promote_types_def)

lemma concat_filter_legacy:
  "concat (map trows (filter (\<lambda>t. \<not> legacy_empty t) ts)) = concat (map trows ts)"
  by (induction ts) (auto simp: legacy_empty_def)

lemma torch_cat_rows:
  assumes "torch_cat ts = Inr res"
  shows "trows res = concat (map trows ts)"
proof (cases "filter (\<lambda>t. \<not> legacy_empty t) ts")
  case Nil
  then have "concat (map trows ts) = []"
    using concat_filter_legacy[of ts] by simp
  with assms Nil show ?thesis
    by (auto simp: torch_cat_def split: list.splits)
next
  case (Cons u us)
  then have "concat (map trows ts) = concat (map trows (u # us))"
    using concat_filter_legacy[of ts] by simp
  with assms Cons show ?thesis
    by (auto simp: torch_cat_def Let_def split: list.splits if_splits)
qed

lemma torch_cat_dtype:
  assumes "torch_cat ts = Inr res" and "\<forall>t\<in>set ts. tdtype t = dt"
  shows "tdtype res = dt"
proof -
  obtain t0 rest where ts: "ts = t0 # rest"
    using assms(1) by (cases ts) (auto simp: torch_cat_def)
  have "foldl promote_types (tdtype t0) (map tdtype rest) = dt"
    using assms(2) ts foldl_promote_same[of "map tdtype rest" dt] by auto
  with assms(1) ts show ?thesis
    by (auto simp: torch_cat_def Let_def split: list.splits if_splits)
qed

lemma torch_cat_ok:
  assumes "ts \<noteq> []" and "\<forall>t\<in>set ts. tdim t = dm \<or> legacy_empty t"
  shows "\<exists>res. torch_cat ts = Inr res \<and> (tdim res = dm \<or> legacy_empty res)"
proof -
  obtain t0 rest where ts: "ts = t0 # rest" using assms(1) by (cases ts) auto
  show ?thesis
  proof (cases "filter (\<lambda>t. \<not> legacy_empty t) ts")
    case Nil
    with ts show ?thesis by (simp add: torch_cat_def Let_def legacy_empty_def)
  next
    case (Cons u us)
    have "set (u # us) \<subseteq> {t \<in> set ts. \<not> legacy_empty t}"
      using Cons[symmetric] by auto
    then have "\<forall>v\<in>set (u # us). tdim v = dm" using assms(2) by auto
    with ts Cons show ?thesis by (simp add: torch_cat_def Let_def)
  qed
qed

lemma torch_cat_same:
  assumes "ts \<noteq> []" and "\<forall>t\<in>set ts. tdtype t = dt \<and> tdim t = dm"
  shows "torch_cat ts = Inr \<lparr>tdim = dm, tdtype = dt, trows = concat (map trows ts)\<rparr>"
proof -
  from torch_cat_ok[OF assms(1), of dm] assms(2)
  obtain res where res: "torch_cat ts = Inr res" "tdim res = dm \<or> legacy_empty res"
    by auto
  have "tdim res = dm"
  proof (cases "dm = []")
    case True
    with res(2) show ?thesis by (auto simp: legacy_empty_def)
  next
    case False
    have "filter (\<lambda>t. \<not> legacy_empty t) ts = ts"
      using assms(2) False by (auto simp: legacy_empty_def filter_id_conv)
    with res(1) assms False show ?thesis
      by (cases ts) (auto simp: torch_cat_def Let_def split: if_splits)
  qed
  moreover have "tdtype res = dt" using torch_cat_dtype[OF res(1)] assms(2) by auto
  moreover have "trows res = concat (map trows ts)" using torch_cat_rows[OF res(1)] .
  ultimately show ?thesis using res(1) by simp
qed

lemma slices_for_Nil [simp]: "slices_for data rank W tids dl t [] = []"
  by (simp add: slices_for_def)

lemma scatter_loop_char:
  assumes "\<forall>p\<in>set ps. p < length tids" and "length acc = W" and "0 < W"
  shows "\<exists>out. scatter_loop data rank W tids dl ps acc = Inr out \<and> length out = W \<and>
           (\<forall>t<W. out ! t =
              (if slices_for data rank W tids dl t ps = [] then acc ! t
               else Some ((case acc ! t of None \<Rightarrow> [] | Some l \<Rightarrow> l)
                          @ slices_for data rank W tids dl t ps)))"
  using assms
proof (induction ps arbitrary: acc)
  case Nil
  then show ?case by simp
next
  case (Cons p ps)
  obtain a b where ab: "tids ! p = (a, b)" by (cases "tids ! p")
  have p: "p < length tids" and ps: "\<forall>q\<in>set ps. q < length tids"
    using Cons.prems(1) by auto
  have tgt: "map_partid_rank p W < W" using Cons.prems(3) by (simp add: map_partid_rank_def)
  show ?case
  proof (cases "a \<ge> dl ! (rank + 1) \<or> b \<le> dl ! rank")
    case True
    then have skip: "slices_for data rank W tids dl t (p # ps) = slices_for data rank W tids dl t ps" for t
      using ab by (simp add: slices_for_def)
    have eq: "scatter_loop data rank W tids dl (p # ps) acc = scatter_loop data rank W tids dl ps acc"
      using True ab p by (simp add: Let_def)
    show ?thesis unfolding eq skip by (rule Cons.IH[OF ps Cons.prems(2,3)])
  next
    case False
    define sl where "sl = tslice data (max 0 (a - dl ! rank))
                            (min (int (length (trows data))) (b - dl ! rank))"
    define acc' where "acc' = acc[map_partid_rank p W :=
        Some ((case acc ! map_partid_rank p W of None \<Rightarrow> [] | Some l \<Rightarrow> l) @ [sl])]"
    have step: "scatter_loop data rank W tids dl (p # ps) acc = scatter_loop data rank W tids dl ps acc'"
      using False ab p by (simp add: Let_def acc'_def sl_def)
    have len: "length acc' = W" using Cons.prems(2) by (simp add: acc'_def)
    from Cons.IH[OF ps len Cons.prems(3)]
    obtain out where out: "scatter_loop data rank W tids dl ps acc' = Inr out" "length out = W"
      "\<forall>t<W. out ! t =
              (if slices_for data rank W tids dl t ps = [] then acc' ! t
               else Some ((case acc' ! t of None \<Rightarrow> [] | Some l \<Rightarrow> l)
                          @ slices_for data rank W tids dl t ps))" by blast
    have hit: "slices_for data rank W tids dl (map_partid_rank p W) (p # ps)
               = sl # slices_for data rank W tids dl (map_partid_rank p W) ps"
      using False ab by (simp add: slices_for_def sl_def)
    have miss: "t \<noteq> map_partid_rank p W \<Longrightarrow>
               slices_for data rank W tids dl t (p # ps) = slices_for data rank W tids dl t ps" for t
      by (auto simp: slices_for_def)
    have "\<forall>t<W. out ! t =
              (if slices_for data rank W tids dl t (p # ps) = [] then acc ! t
               else Some ((case acc ! t of None \<Rightarrow> [] | Some l \<Rightarrow> l)
                          @ slices_for data rank W tids dl t (p # ps)))"
    proof (intro allI impI)
      fix t assume t: "t < W"
      show "out ! t =
              (if slices_for data rank W tids dl t (p # ps) = [] then acc ! t
               else Some ((case acc ! t of None \<Rightarrow> [] | Some l \<Rightarrow> l)
                          @ slices_for data rank W tids dl t (p # ps)))"
      proof (cases "t = map_partid_rank p W")
        case True
        then show ?thesis
          using out(3) t hit Cons.prems(2) by (simp add: acc'_def)
      next
        case False
        then show ?thesis
          using out(3) t miss[OF False] Cons.prems(2) by (simp add: acc'_def)
      qed
    qed
    with out(1,2) show ?thesis unfolding step by blast
  qed
qed

lemma scatter_lists_char:
  assumes "num_parts \<le> length tids" and "0 < W"
  shows "\<exists>out. scatter_lists data rank W tids num_parts dl = Inr out \<and> length out = W \<and>
           (\<forall>t<W. out ! t =
              (if trows data = [] \<or> slices_for data rank W tids dl t [0..<num_parts] = [] then None
               else Some (slices_for data rank W tids dl t [0..<num_parts])))"
proof (cases "trows data = []")
  case True
  then show ?thesis by (simp add: scatter_lists_def)
next
  case False
  have "\<forall>p\<in>set [0..<num_parts]. p < length tids" using assms(1) by auto
  from scatter_loop_char[OF this, of "replicate W None" W data rank dl] assms(2)
  show ?thesis using False by (auto simp: scatter_lists_def)
qed

lemma collect_map_Inr:
  "\<forall>x\<in>set xs. f x = Inr (g x) \<Longrightarrow> collect (map f xs) = Inr (map g xs)"
  by (induction xs) simp_all

lemma collect_Inr_nth:
  "collect xs = Inr ys \<Longrightarrow> length ys = length xs \<and> (\<forall>i<length xs. xs ! i = Inr (ys ! i))"
proof (induction xs arbitrary: ys)
  case Nil
  then show ?case by simp
next
  case (Cons x xs)
  then show ?case
    by (auto split: sum.splits simp: nth_Cons split: nat.splits)
qed

lemma REV_DATA_TYPE_ID_inverse: "DATA_TYPE_ID d = Some i \<Longrightarrow> REV_DATA_TYPE_ID i = Some d"
  by (cases d) (auto simp: REV_DATA_TYPE_ID_def)

lemma data_shape_of_supported:
  "supported t \<Longrightarrow>
   \<exists>i. DATA_TYPE_ID (tdtype t) = Some i \<and>
       data_shape_of t = Inr [length (trows t), data_dim_of t, i]"
  by (cases "tdim t")
     (auto simp: supported_def data_shape_of_def data_dim_of_def Let_def)

lemma data_shape_of_Inr: "data_shape_of t = Inr sh \<Longrightarrow> supported t"
  by (auto simp: supported_def data_shape_of_def Let_def split: if_splits option.splits)

lemma data_lines_of_rows:
  assumes "map (\<lambda>sh. sh ! 0) a = map (\<lambda>sh. sh ! 0) b"
  shows "data_lines_of a = data_lines_of b"
proof -
  have "map (\<lambda>sh. int (sh ! 0)) a = map int (map (\<lambda>sh. sh ! 0) a)" by (simp add: comp_def)
  also have "\<dots> = map int (map (\<lambda>sh. sh ! 0) b)" using assms by simp
  also have "\<dots> = map (\<lambda>sh. int (sh ! 0)) b" by (simp add: comp_def)
  finally show ?thesis by (simp add: data_lines_of_def)
qed

lemma all_gather_supported:
  assumes "\<forall>t\<in>set datas. supported t"
  shows "\<exists>dso. all_gather datas = Inr dso \<and> length dso = length datas \<and>
           data_lines_of dso = lines_of datas \<and>
           (\<forall>s<length datas. dso ! s ! 1 = data_dim_of (datas ! s) \<and>
              DATA_TYPE_ID (tdtype (datas ! s)) = Some (dso ! s ! 2))"
proof -
  define g where "g t = [length (trows t), data_dim_of t, the (DATA_TYPE_ID (tdtype t))]"
    for t :: "'a tensor"
  have "\<forall>t\<in>set datas. data_shape_of t = Inr (g t)"
    using assms data_shape_of_supported by (fastforce simp: g_def)
  from collect_map_Inr[OF this]
  have ag: "all_gather datas = Inr (map g datas)" by (simp add: all_gather_def)
  have "data_lines_of (map g datas) = lines_of datas"
    unfolding lines_of_def by (rule data_lines_of_rows) (simp add: g_def)
  moreover have "\<forall>s<length datas. map g datas ! s ! 1 = data_dim_of (datas ! s) \<and>
              DATA_TYPE_ID (tdtype (datas ! s)) = Some (map g datas ! s ! 2)"
  proof (intro allI impI)
    fix s assume s: "s < length datas"
    then have "supported (datas ! s)" using assms by simp
    from data_shape_of_supported[OF this]
    obtain i where "DATA_TYPE_ID (tdtype (datas ! s)) = Some i" by blast
    then show "map g datas ! s ! 1 = data_dim_of (datas ! s) \<and>
              DATA_TYPE_ID (tdtype (datas ! s)) = Some (map g datas ! s ! 2)"
      using s by (simp add: g_def)
  qed
  ultimately show ?thesis using ag by simp
qed

lemma all_gather_Inr: "all_gather datas = Inr dso \<Longrightarrow> \<forall>t\<in>set datas. supported t"
proof -
  assume "all_gather datas = Inr dso"
  then have c: "collect (map data_shape_of datas) = Inr dso"
    by (auto simp: all_gather_def split: sum.splits)
  show ?thesis
  proof
    fix t assume "t \<in> set datas"
    then obtain i where "i < length datas" "datas ! i = t" by (auto simp: in_set_conv_nth)
    with collect_Inr_nth[OF c] have "data_shape_of t = Inr (dso ! i)" by auto
    then show "supported t" by (rule data_shape_of_Inr)
  qed
qed

lemma scatter_loop_fail:
  "\<exists>p\<in>set ps. length tids \<le> p \<Longrightarrow> \<exists>e. scatter_loop data rank W tids dl ps acc = Inl e"
proof (induction ps arbitrary: acc)
  case Nil
  then show ?case by simp
next
  case (Cons p ps)
  show ?case
  proof (cases "length tids \<le> p")
    case True
    then show ?thesis by (simp add: Let_def)
  next
    case False
    with Cons.prems have "\<exists>q\<in>set ps. length tids \<le> q" by auto
    from Cons.IH[OF this] False show ?thesis
      by (simp add: Let_def split: prod.splits)
  qed
qed

lemma slices_for_shape:
  "t \<in> set (slices_for data rank W tids dl tgt ps) \<Longrightarrow> tdtype t = tdtype data \<and> tdim t = tdim data"
  by (auto simp: slices_for_def tslice_def)

lemma data_input_entry_char:
  assumes "entry = (if trows data = [] \<or> sl = [] then None else Some sl)"
    and "sl = slices_for data rank W tids dl tgt ps"
  shows "data_input_entry cast data_dim data_type entry =
         Inr (if trows data = [] \<or> sl = [] then zeros_placeholder data_dim data_type
              else to_dtype cast data_type
                     \<lparr>tdim = tdim data, tdtype = tdtype data, trows = concat (map trows sl)\<rparr>)"
proof (cases "trows data = [] \<or> sl = []")
  case True
  with assms(1) show ?thesis by (simp add: data_input_entry_def)
next
  case False
  then have ne: "sl \<noteq> []" by simp
  have "\<forall>t\<in>set sl. tdtype t = tdtype data \<and> tdim t = tdim data"
    using slices_for_shape assms(2) by blast
  from torch_cat_same[OF ne this] False assms(1) show ?thesis
    by (simp add: data_input_entry_def)
qed

lemma prepare_char:
  assumes "s < length datas" and "num_parts \<le> length tids \<or> trows (datas ! s) = []"
    and sup: "\<forall>t\<in>set datas. supported t"
  shows "prepare cast datas s (length datas) tids num_parts =
         Inr ((map (send_entry cast datas (length datas) tids num_parts s) [0..<length datas])
                [s := zeros_placeholder (data_dim_of (datas ! 0))
                        (tdtype (datas ! 0))],
              send_entry cast datas (length datas) tids num_parts s s)"
proof -
  let ?W = "length datas"
  let ?dl = "lines_of datas"
  let ?dim = "data_dim_of (datas ! 0)"
  let ?dt = "tdtype (datas ! 0)"
  have W: "0 < ?W" using assms(1) by auto
  from all_gather_supported[OF sup] obtain dso where ag: "all_gather datas = Inr dso"
    and dl: "data_lines_of dso = ?dl"
    and dso: "\<forall>s<length datas. dso ! s ! 1 = data_dim_of (datas ! s) \<and>
              DATA_TYPE_ID (tdtype (datas ! s)) = Some (dso ! s ! 2)" by blast
  have dim: "dso ! 0 ! Suc 0 = ?dim" and dt: "REV_DATA_TYPE_ID (dso ! 0 ! 2) = Some ?dt"
    using W dso REV_DATA_TYPE_ID_inverse by auto
  obtain sh where own: "data_shape_of (datas ! s) = Inr sh"
    using data_shape_of_supported sup assms(1) by (metis nth_mem)
  have "\<exists>out. scatter_lists (datas ! s) s ?W tids num_parts ?dl = Inr out \<and> length out = ?W \<and>
           (\<forall>t<?W. out ! t =
              (if trows (datas ! s) = [] \<or> slices_for (datas ! s) s ?W tids ?dl t [0..<num_parts] = [] then None
               else Some (slices_for (datas ! s) s ?W tids ?dl t [0..<num_parts])))"
  proof (cases "trows (datas ! s) = []")
    case True
    then show ?thesis by (simp add: scatter_lists_def)
  next
    case False
    with assms(2) have "num_parts \<le> length tids" by simp
    from scatter_lists_char[OF this W] show ?thesis .
  qed
  then obtain out where out: "scatter_lists (datas ! s) s ?W tids num_parts ?dl = Inr out"
    "length out = ?W"
    "\<forall>t<?W. out ! t =
              (if trows (datas ! s) = [] \<or> slices_for (datas ! s) s ?W tids ?dl t [0..<num_parts] = [] then None
               else Some (slices_for (datas ! s) s ?W tids ?dl t [0..<num_parts]))"
    by blast
  have "map (data_input_entry cast ?dim ?dt) out
        = map (\<lambda>t. data_input_entry cast ?dim ?dt (out ! t)) [0..<?W]"
    by (rule nth_equalityI) (simp_all add: out(2))
  also have "collect \<dots> = Inr (map (send_entry cast datas ?W tids num_parts s) [0..<?W])"
  proof (rule collect_map_Inr, rule ballI)
    fix t assume "t \<in> set [0..<?W]"
    then have t: "t < ?W" by simp
    show "data_input_entry cast ?dim ?dt (out ! t) = Inr (send_entry cast datas ?W tids num_parts s t)"
      using data_input_entry_char[OF out(3)[rule_format, OF t] refl, of cast ?dim ?dt]
      by (simp add: send_entry_def Let_def)
  qed
  finally have col: "collect (map (data_input_entry cast ?dim ?dt) out)
        = Inr (map (send_entry cast datas ?W tids num_parts s) [0..<?W])" .
  show ?thesis
    using W out(1) col assms(1)
    by (simp add: prepare_def Let_def own ag dl dim dt)
qed

lemma prepare_Inr_supported:
  assumes "prepare cast datas s W tids num_parts = Inr x"
  shows "\<forall>t\<in>set datas. supported t"
proof -
  from assms obtain dso where "all_gather datas = Inr dso"
    by (auto simp: prepare_def Let_def split: sum.splits)
  then show ?thesis by (rule all_gather_Inr)
qed

lemma prepare_Inr_cond:
  assumes "prepare cast datas s W tids num_parts = Inr x"
  shows "num_parts \<le> length tids \<or> trows (datas ! s) = []"
proof (rule ccontr)
  assume "\<not> ?thesis"
  then have lt: "length tids < num_parts" and ne: "trows (datas ! s) \<noteq> []" by auto
  then have "\<exists>p\<in>set [0..<num_parts]. length tids \<le> p" by auto
  from scatter_loop_fail[OF this, of "datas ! s" s W "lines_of datas" "replicate W None"] ne
  obtain e where e: "scatter_lists (datas ! s) s W tids num_parts (lines_of datas) = Inl e"
    by (auto simp: scatter_lists_def)
  from all_gather_supported[OF prepare_Inr_supported[OF assms]]
  obtain dso where "all_gather datas = Inr dso" "data_lines_of dso = lines_of datas" by blast
  with assms e show False
    by (auto simp: prepare_def Let_def split: if_splits option.splits sum.splits)
qed

lemma map_the_filter_Some:
  "map the (filter (\<lambda>d. d \<noteq> None) (map (\<lambda>x. if Q x then Some (g x) else None) xs))
   = map g (filter Q xs)"
  by (induction xs) simp_all

lemma shuffle_data_char:
  assumes "r < length datas"
    and "\<forall>s<length datas. num_parts \<le> length tids \<or> trows (datas ! s) = []"
    and sup: "\<forall>t\<in>set datas. supported t"
  shows "shuffle_data cast datas r (length datas) tids num_parts
         = torch_cat (received cast datas tids num_parts r)"
proof -
  let ?W = "length datas"
  let ?ph = "zeros_placeholder (data_dim_of (datas ! 0)) (tdtype (datas ! 0)) :: 'a tensor"
  let ?se = "send_entry cast datas ?W tids num_parts"
  let ?g = "\<lambda>s. ((map (?se s) [0..<?W])[s := ?ph], ?se s s)"
  have prep: "prepare cast datas s ?W tids num_parts = Inr (?g s)" if "s < ?W" for s
    using prepare_char[OF that _ sup, of num_parts tids cast] assms(2) that by simp
  have col: "collect (map (\<lambda>src. prepare cast datas src ?W tids num_parts) [0..<?W])
             = Inr (map ?g [0..<?W])"
    by (rule collect_map_Inr) (simp add: prep)
  have ph: "trows ?ph = []" by (simp add: zeros_placeholder_def)
  have out: "(alltoallv_cpu r ?W (map fst (map ?g [0..<?W])))[r := Some (?se r r)]
             = map (\<lambda>s. if s = r \<or> trows (?se s r) \<noteq> [] then Some (?se s r) else None) [0..<?W]"
  proof (rule nth_equalityI)
    show "length ((alltoallv_cpu r ?W (map fst (map ?g [0..<?W])))[r := Some (?se r r)])
          = length (map (\<lambda>s. if s = r \<or> trows (?se s r) \<noteq> [] then Some (?se s r) else None) [0..<?W])"
      by (simp add: alltoallv_cpu_def)
  next
    fix i assume "i < length ((alltoallv_cpu r ?W (map fst (map ?g [0..<?W])))[r := Some (?se r r)])"
    then have i: "i < ?W" by (simp add: alltoallv_cpu_def)
    show "(alltoallv_cpu r ?W (map fst (map ?g [0..<?W])))[r := Some (?se r r)] ! i
          = map (\<lambda>s. if s = r \<or> trows (?se s r) \<noteq> [] then Some (?se s r) else None) [0..<?W] ! i"
    proof (cases "i = r")
      case True
      then show ?thesis using i by (simp add: alltoallv_cpu_def)
    next
      case False
      then show ?thesis using i assms(1) by (simp add: alltoallv_cpu_def Let_def)
    qed
  qed
  have cond: "\<not> (length datas \<noteq> ?W \<or> ?W \<le> r)" using assms(1) by simp
  have "shuffle_data cast datas r ?W tids num_parts
        = torch_cat (map the (filter (\<lambda>data. data \<noteq> None)
            ((alltoallv_cpu r ?W (map fst (map ?g [0..<?W])))[r := Some (?se r r)])))"
    by (simp only: shuffle_data_def cond if_False prep[OF assms(1)] col sum.case prod.case Let_def)
  also have "\<dots> = torch_cat (received cast datas tids num_parts r)"
    by (simp only: out map_the_filter_Some received_def)
  finally show ?thesis .
qed

lemma shuffle_data_Inr_supported:
  assumes "shuffle_data cast datas r world_size tids num_parts = Inr res"
  shows "\<forall>t\<in>set datas. supported t"
proof -
  from assms obtain x where "prepare cast datas r world_size tids num_parts = Inr x"
    by (auto simp: shuffle_data_def split: if_splits sum.splits)
  then show ?thesis by (rule prepare_Inr_supported)
qed

lemma shuffle_data_Inr_char:
  assumes "shuffle_data cast datas r world_size tids num_parts = Inr res"
  shows "world_size = length datas \<and> r < length datas \<and>
         torch_cat (received cast datas tids num_parts r) = Inr res"
proof -
  have W: "length datas = world_size" and r: "r < world_size"
    using assms by (auto simp: shuffle_data_def split: if_splits)
  obtain prepared where col:
    "collect (map (\<lambda>src. prepare cast datas src world_size tids num_parts) [0..<world_size]) = Inr prepared"
    using assms W r by (auto simp: shuffle_data_def split: sum.splits)
  have "\<forall>s<length datas. num_parts \<le> length tids \<or> trows (datas ! s) = []"
  proof (intro allI impI)
    fix s assume s: "s < length datas"
    from collect_Inr_nth[OF col] s W
    have "prepare cast datas s world_size tids num_parts = Inr (prepared ! s)" by simp
    from prepare_Inr_cond[OF this] show "num_parts \<le> length tids \<or> trows (datas ! s) = []" .
  qed
  from shuffle_data_char[OF _ this shuffle_data_Inr_supported[OF assms], of r cast] assms W r
  show ?thesis by simp
qed

lemma torch_cat_width:
  assumes "ts \<noteq> []" and "\<forall>t\<in>set ts. tdim t = dm \<or> legacy_empty t"
  shows "\<exists>res. torch_cat ts = Inr res \<and>
           (tdim res = dm \<or> (tdim res = [] \<and> (\<forall>t\<in>set ts. legacy_empty t)))"
proof -
  obtain t0 rest where ts: "ts = t0 # rest" using assms(1) by (cases ts) auto
  show ?thesis
  proof (cases "filter (\<lambda>t. \<not> legacy_empty t) ts")
    case Nil
    then have "\<forall>t\<in>set ts. legacy_empty t" by (simp add: filter_empty_conv)
    with ts Nil show ?thesis by (simp add: torch_cat_def Let_def)
  next
    case (Cons u us)
    have "set (u # us) \<subseteq> {t \<in> set ts. \<not> legacy_empty t}"
      using Cons[symmetric] by auto
    then have "\<forall>v\<in>set (u # us). tdim v = dm" using assms(2) by auto
    with ts Cons show ?thesis by (simp add: torch_cat_def Let_def)
  qed
qed

lemma send_entry_dtype:
  "tdtype (send_entry cast datas W tids num_parts s t) = tdtype (datas ! 0)"
  by (simp add: send_entry_def zeros_placeholder_def to_dtype_def Let_def)

lemma send_entry_form:
  "send_entry cast datas W tids num_parts s t
     = zeros_placeholder (data_dim_of (datas ! 0)) (tdtype (datas ! 0))
   \<or> (\<exists>u. send_entry cast datas W tids num_parts s t = to_dtype cast (tdtype (datas ! 0)) u)"
  by (auto simp: send_entry_def Let_def)

lemma placeholder_shape:
  assumes "length (tdim (datas ! 0)) \<le> 1"
    and "tdim (datas ! 0) = sh \<or> data_dim_of (datas ! 0) = 1"
  shows "tdim (zeros_placeholder (data_dim_of (datas ! 0)) dt :: 'a tensor) = sh
         \<or> legacy_empty (zeros_placeholder (data_dim_of (datas ! 0)) dt :: 'a tensor)"
  using assms
  by (cases "tdim (datas ! 0)")
     (auto simp: zeros_placeholder_def legacy_empty_def data_dim_of_def)

lemma send_entry_tdim:
  assumes "s < length datas"
    and "\<forall>t\<in>set datas. trows t \<noteq> [] \<longrightarrow> tdim t = sh"
    and "tdim (datas ! 0) = sh \<or> data_dim_of (datas ! 0) = 1"
    and "length (tdim (datas ! 0)) \<le> 1"
  shows "tdim (send_entry cast datas W tids num_parts s t) = sh
         \<or> legacy_empty (send_entry cast datas W tids num_parts s t)"
proof (cases "trows (datas ! s) = [] \<or>
    slices_for (datas ! s) s W tids (lines_of datas) t [0..<num_parts] = []")
  case True
  then have "send_entry cast datas W tids num_parts s t
     = zeros_placeholder (data_dim_of (datas ! 0)) (tdtype (datas ! 0))"
    by (auto simp: send_entry_def Let_def)
  then show ?thesis using placeholder_shape[OF assms(4,3)] by simp
next
  case False
  then have "tdim (send_entry cast datas W tids num_parts s t) = tdim (datas ! s)"
    by (auto simp: send_entry_def Let_def to_dtype_def)
  moreover have "tdim (datas ! s) = sh"
    using False assms by auto
  ultimately show ?thesis by simp
qed

lemma received_nonempty: "r < length datas \<Longrightarrow> received cast datas tids num_parts r \<noteq> []"
  by (auto simp: received_def filter_empty_conv)

lemma received_own:
  "r < length datas \<Longrightarrow>
   send_entry cast datas (length datas) tids num_parts r r \<in> set (received cast datas tids num_parts r)"
  by (auto simp: received_def)

lemma send_entry_legacy_width:
  assumes "r < length datas"
    and "\<forall>t\<in>set datas. trows t \<noteq> [] \<longrightarrow> tdim t = tdim (datas ! 0)"
    and "legacy_empty (send_entry cast datas W tids num_parts r t)"
  shows "data_dim_of (datas ! 0) = 1"
proof (cases "trows (datas ! r) = [] \<or>
    slices_for (datas ! r) r W tids (lines_of datas) t [0..<num_parts] = []")
  case True
  then have "send_entry cast datas W tids num_parts r t
     = zeros_placeholder (data_dim_of (datas ! 0)) (tdtype (datas ! 0))"
    by (auto simp: send_entry_def Let_def)
  with assms(3) show ?thesis
    by (auto simp: zeros_placeholder_def legacy_empty_def split: if_splits)
next
  case False
  then have "tdim (send_entry cast datas W tids num_parts r t) = tdim (datas ! r)"
    by (auto simp: send_entry_def Let_def to_dtype_def)
  moreover have "tdim (datas ! r) = tdim (datas ! 0)"
    using False assms by auto
  ultimately show ?thesis using assms(3) by (simp add: legacy_empty_def data_dim_of_def)
qed

lemma row_offset_Suc:
  "s < length datas \<Longrightarrow> row_offset datas (Suc s) = row_offset datas s + length (trows (datas ! s))"
  by (simp add: row_offset_def take_Suc_conv_app_nth)

lemma row_offset_mono: "s \<le> s' \<Longrightarrow> row_offset datas s \<le> row_offset datas s'"
proof (induction s' arbitrary: s)
  case 0
  then show ?case by simp
next
  case (Suc s')
  show ?case
  proof (cases "s = Suc s'")
    case True
    then show ?thesis by simp
  next
    case False
    with Suc.prems have le: "s \<le> s'" by simp
    have "row_offset datas s' \<le> row_offset datas (Suc s')"
    proof (cases "s' < length datas")
      case True
      then show ?thesis by (simp add: row_offset_Suc)
    next
      case False
      then show ?thesis by (simp add: row_offset_def)
    qed
    with Suc.IH[OF le] show ?thesis by simp
  qed
qed

lemma row_offset_total: "row_offset datas (length datas) = length (all_rows datas)"
  by (simp add: row_offset_def all_rows_def)

lemma row_offset_le_total: "s \<le> length datas \<Longrightarrow> row_offset datas s \<le> length (all_rows datas)"
  using row_offset_mono[of s "length datas" datas] by (simp add: row_offset_total)

lemma rows_of_rank:
  assumes "s < length datas"
  shows "trows (datas ! s) = take (length (trows (datas ! s))) (drop (row_offset datas s) (all_rows datas))"
proof -
  have "datas = take s datas @ datas ! s # drop (Suc s) datas"
    using assms by (simp add: id_take_nth_drop)
  then have "all_rows datas = concat (map trows (take s datas)) @ trows (datas ! s)
        @ concat (map trows (drop (Suc s) datas))"
    unfolding all_rows_def by (metis concat.simps(2) concat_append list.simps(9) map_append)
  then show ?thesis by (simp add: row_offset_def)
qed

lemma take_drop_map_nth:
  "j \<le> length xs \<Longrightarrow> take (j - i) (drop i xs) = map ((!) xs) [i..<j]"
  by (rule nth_equalityI) (auto simp: add.commute)

lemma slice_of_segment:
  assumes "rows = take n (drop off G)" and "off + n \<le> length G"
  shows "take (min n j - min n i) (drop (min n i) rows) = map ((!) G) [off + min n i ..< off + min n j]"
proof -
  have "drop (min n i) rows = take (n - min n i) (drop (off + min n i) G)"
    using assms(1) by (simp add: drop_take add.commute)
  then have "take (min n j - min n i) (drop (min n i) rows)
             = take (min n j - min n i) (drop (off + min n i) G)"
    by (simp add: min_def)
  also have "\<dots> = take ((off + min n j) - (off + min n i)) (drop (off + min n i) G)"
    by simp
  also have "\<dots> = map ((!) G) [off + min n i ..< off + min n j]"
    using assms(2) by (intro take_drop_map_nth) simp
  finally show ?thesis .
qed

lemma py_slice_clamped:
  assumes "length rows = n" and "int off < b"
  shows "py_slice rows (max 0 (a - int off)) (min (int n) (b - int off))
         = take (min n (nat b - off) - min n (nat a - off)) (drop (min n (nat a - off)) rows)"
proof -
  have s: "py_bound n (max 0 (a - int off)) = min n (nat a - off)"
    by (auto simp: py_bound_def nat_diff_distrib' max_def)
  have e: "py_bound n (min (int n) (b - int off)) = min n (nat b - off)"
    using assms(2) by (auto simp: py_bound_def min_def)
  show ?thesis using assms(1) s e by (simp add: py_slice_def)
qed

lemma span_idx_alt:
  assumes "s < length datas"
  shows "span_idx datas tids s p =
         [row_offset datas s + min (length (trows (datas ! s))) (nat (fst (tids ! p)) - row_offset datas s) ..<
          row_offset datas s + min (length (trows (datas ! s))) (nat (snd (tids ! p)) - row_offset datas s)]"
proof -
  have "\<And>x n off::nat. min (off + n) (max off x) = off + min n (x - off)" by auto
  then show ?thesis by (simp add: span_idx_def row_offset_Suc[OF assms])
qed

lemma slice_rows_idx:
  assumes s: "s < length datas"
    and ov: "\<not> (fst (tids ! p) \<ge> lines_of datas ! (s + 1)
                \<or> snd (tids ! p) \<le> lines_of datas ! s)"
  shows "trows (tslice (datas ! s)
            (max 0 (fst (tids ! p) - lines_of datas ! s))
            (min (int (length (trows (datas ! s)))) (snd (tids ! p) - lines_of datas ! s)))
         = map ((!) (all_rows datas)) (span_idx datas tids s p)"
proof -
  let ?off = "row_offset datas s"
  let ?n = "length (trows (datas ! s))"
  have dl: "lines_of datas ! s = int ?off"
    using data_lines_nth[of s datas] s by simp
  have b: "int ?off < snd (tids ! p)" using ov dl by simp
  have le: "?off + ?n \<le> length (all_rows datas)"
    using row_offset_le_total[of "Suc s" datas] s by (simp add: row_offset_Suc)
  show ?thesis
    unfolding dl span_idx_alt[OF s]
    using py_slice_clamped[OF refl b, of "trows (datas ! s)" "fst (tids ! p)"]
      slice_of_segment[OF rows_of_rank[OF s] le]
    by (simp add: tslice_def)
qed

lemma span_idx_empty:
  assumes s: "s < length datas"
    and "trows (datas ! s) = [] \<or> fst (tids ! p) \<ge> lines_of datas ! (s + 1)
                \<or> snd (tids ! p) \<le> lines_of datas ! s"
  shows "span_idx datas tids s p = []"
proof -
  have dl: "lines_of datas ! s = int (row_offset datas s)"
    using data_lines_nth[of s datas] s by simp
  have dl': "lines_of datas ! (s + 1) = int (row_offset datas (Suc s))"
    using data_lines_nth[of "Suc s" datas] s by simp
  show ?thesis
    using assms(2) row_offset_Suc[OF s] unfolding dl dl' span_idx_def
    by auto
qed

lemma concat_slices_idx:
  assumes s: "s < length datas"
  shows "(if trows (datas ! s) = [] then []
          else concat (map trows (slices_for (datas ! s) s W tids (lines_of datas) t ps)))
         = map ((!) (all_rows datas))
             (concat (map (span_idx datas tids s) (filter (\<lambda>p. map_partid_rank p W = t) ps)))"
proof (cases "trows (datas ! s) = []")
  case True
  then have "\<forall>p. span_idx datas tids s p = []" using span_idx_empty[OF s] by blast
  with True show ?thesis by simp
next
  case False
  have "concat (map trows (slices_for (datas ! s) s W tids (lines_of datas) t ps))
        = map ((!) (all_rows datas))
             (concat (map (span_idx datas tids s) (filter (\<lambda>p. map_partid_rank p W = t) ps)))"
  proof (induction ps)
    case Nil
    then show ?case by simp
  next
    case (Cons p ps)
    show ?case
    proof (cases "map_partid_rank p W = t")
      case False
      with Cons show ?thesis by (simp add: slices_for_def)
    next
      case True
      show ?thesis
      proof (cases "fst (tids ! p) \<ge> lines_of datas ! (s + 1)
                \<or> snd (tids ! p) \<le> lines_of datas ! s")
        case ov: True
        then have "span_idx datas tids s p = []" using span_idx_empty[OF s] by blast
        with Cons True ov show ?thesis by (auto simp: slices_for_def)
      next
        case ov: False
        from slice_rows_idx[OF s ov] Cons True ov show ?thesis
          by (simp add: slices_for_def)
      qed
    qed
  qed
  with False show ?thesis by simp
qed

lemma send_entry_rows:
  assumes s: "s < length datas"
  shows "trows (send_entry cast datas W tids num_parts s t)
         = map (cast (tdtype (datas ! s)) (tdtype (datas ! 0)))
             (map ((!) (all_rows datas)) (concat (map (span_idx datas tids s) (owned W num_parts t))))"
proof -
  let ?sl = "slices_for (datas ! s) s W tids (lines_of datas) t [0..<num_parts]"
  have idx: "(if trows (datas ! s) = [] then [] else concat (map trows ?sl))
         = map ((!) (all_rows datas)) (concat (map (span_idx datas tids s) (owned W num_parts t)))"
    using concat_slices_idx[OF s, of W tids t "[0..<num_parts]"] by (simp add: owned_def)
  show ?thesis
  proof (cases "trows (datas ! s) = [] \<or> ?sl = []")
    case True
    then have "trows (send_entry cast datas W tids num_parts s t) = []"
      by (auto simp: send_entry_def Let_def zeros_placeholder_def)
    moreover have "(if trows (datas ! s) = [] then [] else concat (map trows ?sl)) = []"
      using True by auto
    ultimately show ?thesis using idx by simp
  next
    case False
    then have "trows (send_entry cast datas W tids num_parts s t)
      = map (cast (tdtype (datas ! s)) (tdtype (datas ! 0))) (concat (map trows ?sl))"
      by (auto simp: send_entry_def Let_def to_dtype_def)
    with False idx show ?thesis by simp
  qed
qed

lemma concat_map_filter_nonempty:
  "concat (map f (filter (\<lambda>s. Q s \<or> f s \<noteq> []) xs)) = concat (map f xs)"
  by (induction xs) auto

lemma received_rows:
  "concat (map trows (received cast datas tids num_parts r))
   = concat (map (\<lambda>s. trows (send_entry cast datas (length datas) tids num_parts s r)) [0..<length datas])"
  using concat_map_filter_nonempty[of "\<lambda>s. trows (send_entry cast datas (length datas) tids num_parts s r)"
      "\<lambda>s. s = r" "[0..<length datas]"]
  by (simp add: received_def comp_def)

lemma shuffle_data_rows:
  assumes "shuffle_data cast datas rank world_size tids num_parts = Inr res"
  shows "trows res = concat (map (\<lambda>s. map (cast (tdtype (datas ! s)) (tdtype (datas ! 0)))
             (map ((!) (all_rows datas)) (concat (map (span_idx datas tids s) (owned world_size num_parts rank)))))
           [0..<world_size])"
proof -
  from shuffle_data_Inr_char[OF assms]
  have W: "world_size = length datas"
    and cat: "torch_cat (received cast datas tids num_parts rank) = Inr res" by auto
  have "trows res = concat (map (\<lambda>s. trows (send_entry cast datas (length datas) tids num_parts s rank)) [0..<length datas])"
    using torch_cat_rows[OF cat] received_rows by metis
  also have "\<dots> = concat (map (\<lambda>s. map (cast (tdtype (datas ! s)) (tdtype (datas ! 0)))
             (map ((!) (all_rows datas)) (concat (map (span_idx datas tids s) (owned (length datas) num_parts rank)))))
           [0..<length datas])"
    by (rule arg_cong[where f = concat], rule map_cong) (simp_all add: send_entry_rows)
  finally show ?thesis using W by simp
qed

lemma sorted_wrt_concat_map:
  assumes "\<forall>x\<in>set xs. sorted_wrt R (f x)"
    and "sorted_wrt (\<lambda>x y. \<forall>a\<in>set (f x). \<forall>b\<in>set (f y). R a b) xs"
  shows "sorted_wrt R (concat (map f xs))"
  using assms
proof (induction xs)
  case Nil
  then show ?case by simp
next
  case (Cons x xs)
  then show ?case by (auto simp: sorted_wrt_append)
qed

lemma span_idx_mem:
  assumes "i \<in> set (span_idx datas tids s p)"
  shows "row_offset datas s \<le> i \<and> i < row_offset datas (Suc s)
         \<and> nat (fst (tids ! p)) \<le> i \<and> i < nat (snd (tids ! p))"
  using assms by (auto simp: span_idx_def min_def max_def split: if_splits)

lemma span_idx_mem_iff:
  "i \<in> set (span_idx datas tids s p) \<longleftrightarrow>
     row_offset datas s \<le> i \<and> i < row_offset datas (Suc s)
     \<and> nat (fst (tids ! p)) \<le> i \<and> i < nat (snd (tids ! p))"
  by (auto simp: span_idx_def min_def max_def split: if_splits)

lemma ascending_tids_nth:
  "ascending_tids tids \<Longrightarrow> p < p' \<Longrightarrow> p' < length tids \<Longrightarrow> snd (tids ! p) \<le> fst (tids ! p')"
  by (simp add: ascending_tids_def sorted_wrt_iff_nth_less)

lemma shuffled_idx_sorted:
  assumes asc: "ascending_tids tids" and ps: "sorted_wrt (<) ps" and len: "\<forall>p\<in>set ps. p < length tids"
  shows "sorted_wrt (<) (concat (map (\<lambda>s. concat (map (span_idx datas tids s) ps)) [0..<W]))"
proof (rule sorted_wrt_concat_map)
  have inner: "sorted_wrt (\<lambda>p p'. \<forall>a\<in>set (span_idx datas tids s p). \<forall>b\<in>set (span_idx datas tids s p'). a < b) ps" for s
  proof (rule sorted_wrt_mono_rel[OF _ ps])
    fix p p' assume "p \<in> set ps" "p' \<in> set ps" "p < p'"
    then have "snd (tids ! p) \<le> fst (tids ! p')" using ascending_tids_nth[OF asc] len by blast
    then have le: "nat (snd (tids ! p)) \<le> nat (fst (tids ! p'))" by simp
    show "\<forall>a\<in>set (span_idx datas tids s p). \<forall>b\<in>set (span_idx datas tids s p'). a < b"
    proof (intro ballI)
      fix a b assume "a \<in> set (span_idx datas tids s p)" "b \<in> set (span_idx datas tids s p')"
      then have "a < nat (snd (tids ! p))" "nat (fst (tids ! p')) \<le> b"
        using span_idx_mem by blast+
      with le show "a < b" by linarith
    qed
  qed
  show "\<forall>s\<in>set [0..<W]. sorted_wrt (<) (concat (map (span_idx datas tids s) ps))"
  proof
    fix s
    show "sorted_wrt (<) (concat (map (span_idx datas tids s) ps))"
      by (rule sorted_wrt_concat_map) (use inner in \<open>simp_all add: span_idx_def\<close>)
  qed
  show "sorted_wrt (\<lambda>s s'. \<forall>a\<in>set (concat (map (span_idx datas tids s) ps)).
            \<forall>b\<in>set (concat (map (span_idx datas tids s') ps)). a < b) [0..<W]"
  proof (rule sorted_wrt_mono_rel[OF _ sorted_wrt_upt])
    fix s s' :: nat assume "s < s'"
    then have le: "row_offset datas (Suc s) \<le> row_offset datas s'" by (intro row_offset_mono) simp
    show "\<forall>a\<in>set (concat (map (span_idx datas tids s) ps)).
            \<forall>b\<in>set (concat (map (span_idx datas tids s') ps)). a < b"
    proof (intro ballI)
      fix a b assume "a \<in> set (concat (map (span_idx datas tids s) ps))"
        "b \<in> set (concat (map (span_idx datas tids s') ps))"
      then obtain p p' where "a \<in> set (span_idx datas tids s p)" "b \<in> set (span_idx datas tids s' p')"
        by auto
      then have "a < row_offset datas (Suc s)" "row_offset datas s' \<le> b"
        using span_idx_mem by blast+
      with le show "a < b" by linarith
    qed
  qed
qed

lemma rank_of_index:
  "k \<le> length datas \<Longrightarrow> i < row_offset datas k \<Longrightarrow>
   \<exists>s<k. row_offset datas s \<le> i \<and> i < row_offset datas (Suc s)"
proof (induction k)
  case 0
  then show ?case by (simp add: row_offset_def)
next
  case (Suc k)
  show ?case
  proof (cases "i < row_offset datas k")
    case True
    with Suc obtain s where "s < k" "row_offset datas s \<le> i \<and> i < row_offset datas (Suc s)" by auto
    then show ?thesis by (intro exI[of _ s]) simp
  next
    case False
    with Suc.prems show ?thesis by (intro exI[of _ k]) simp
  qed
qed

lemma shuffled_idx_set:
  assumes "\<forall>p\<in>set ps. nat (snd (tids ! p)) \<le> length (all_rows datas)"
  shows "set (concat (map (\<lambda>s. concat (map (span_idx datas tids s) ps)) [0..<length datas]))
         = set (concat (map (\<lambda>p. [nat (fst (tids ! p)) ..< nat (snd (tids ! p))]) ps))"
proof (intro set_eqI iffI)
  fix i assume "i \<in> set (concat (map (\<lambda>s. concat (map (span_idx datas tids s) ps)) [0..<length datas]))"
  then obtain s p where "p \<in> set ps" "i \<in> set (span_idx datas tids s p)" by auto
  then show "i \<in> set (concat (map (\<lambda>p. [nat (fst (tids ! p)) ..< nat (snd (tids ! p))]) ps))"
    using span_idx_mem[of i datas tids s p] by auto
next
  fix i assume "i \<in> set (concat (map (\<lambda>p. [nat (fst (tids ! p)) ..< nat (snd (tids ! p))]) ps))"
  then obtain p where p: "p \<in> set ps" "nat (fst (tids ! p)) \<le> i" "i < nat (snd (tids ! p))" by auto
  then have "i < row_offset datas (length datas)" using assms by (auto simp: row_offset_total)
  from rank_of_index[OF _ this] obtain s where "s < length datas"
    "row_offset datas s \<le> i \<and> i < row_offset datas (Suc s)" by auto
  with p have "s \<in> set [0..<length datas]" "i \<in> set (span_idx datas tids s p)"
    by (simp_all add: span_idx_mem_iff)
  with p(1) show "i \<in> set (concat (map (\<lambda>s. concat (map (span_idx datas tids s) ps)) [0..<length datas]))"
    by auto
qed

lemma ranges_idx_sorted:
  assumes asc: "ascending_tids tids" and ps: "sorted_wrt (<) ps" and len: "\<forall>p\<in>set ps. p < length tids"
  shows "sorted_wrt (<) (concat (map (\<lambda>p. [nat (fst (tids ! p)) ..< nat (snd (tids ! p))]) ps))"
proof (rule sorted_wrt_concat_map)
  show "\<forall>p\<in>set ps. sorted_wrt (<) [nat (fst (tids ! p)) ..< nat (snd (tids ! p))]" by simp
  show "sorted_wrt (\<lambda>p p'. \<forall>a\<in>set [nat (fst (tids ! p)) ..< nat (snd (tids ! p))].
          \<forall>b\<in>set [nat (fst (tids ! p')) ..< nat (snd (tids ! p'))]. a < b) ps"
  proof (rule sorted_wrt_mono_rel[OF _ ps])
    fix p p' assume "p \<in> set ps" "p' \<in> set ps" "p < p'"
    then have "snd (tids ! p) \<le> fst (tids ! p')" using ascending_tids_nth[OF asc] len by blast
    then have "nat (snd (tids ! p)) \<le> nat (fst (tids ! p'))" by simp
    then show "\<forall>a\<in>set [nat (fst (tids ! p)) ..< nat (snd (tids ! p))].
          \<forall>b\<in>set [nat (fst (tids ! p')) ..< nat (snd (tids ! p'))]. a < b" by auto
  qed
qed

lemma shuffled_idx_eq:
  assumes asc: "ascending_tids tids" and ps: "sorted_wrt (<) ps" and len: "\<forall>p\<in>set ps. p < length tids"
    and bound: "\<forall>p\<in>set ps. nat (snd (tids ! p)) \<le> length (all_rows datas)"
  shows "concat (map (\<lambda>s. concat (map (span_idx datas tids s) ps)) [0..<length datas])
         = concat (map (\<lambda>p. [nat (fst (tids ! p)) ..< nat (snd (tids ! p))]) ps)"
proof (rule sorted_distinct_set_unique)
  show "sorted (concat (map (\<lambda>s. concat (map (span_idx datas tids s) ps)) [0..<length datas]))"
    "distinct (concat (map (\<lambda>s. concat (map (span_idx datas tids s) ps)) [0..<length datas]))"
    using shuffled_idx_sorted[OF asc ps len, of datas "length datas"] by (simp_all add: strict_sorted_iff)
  show "sorted (concat (map (\<lambda>p. [nat (fst (tids ! p)) ..< nat (snd (tids ! p))]) ps))"
    "distinct (concat (map (\<lambda>p. [nat (fst (tids ! p)) ..< nat (snd (tids ! p))]) ps))"
    using ranges_idx_sorted[OF asc ps len] by (simp_all add: strict_sorted_iff)
  show "set (concat (map (\<lambda>s. concat (map (span_idx datas tids s) ps)) [0..<length datas]))
        = set (concat (map (\<lambda>p. [nat (fst (tids ! p)) ..< nat (snd (tids ! p))]) ps))"
    by (rule shuffled_idx_set[OF bound])
qed

lemma all_rows_nth:
  assumes "s < length datas" and "row_offset datas s \<le> i" and "i < row_offset datas (Suc s)"
  shows "all_rows datas ! i = trows (datas ! s) ! (i - row_offset datas s)"
proof -
  let ?n = "length (trows (datas ! s))"
  have k: "i - row_offset datas s < ?n" using assms by (simp add: row_offset_Suc)
  have le: "row_offset datas s + ?n \<le> length (all_rows datas)"
    using row_offset_le_total[of "Suc s" datas] assms(1) by (simp add: row_offset_Suc)
  have "trows (datas ! s) ! (i - row_offset datas s)
        = take ?n (drop (row_offset datas s) (all_rows datas)) ! (i - row_offset datas s)"
    using rows_of_rank[OF assms(1)] by simp
  also have "\<dots> = all_rows datas ! i" using k le assms(2) by simp
  finally show ?thesis by simp
qed

lemma cast_rows_as_world:
  "cast_rows cast datas
   = all_rows (map (\<lambda>t. t\<lparr>trows := map (cast (tdtype t) (tdtype (datas ! 0))) (trows t)\<rparr>) datas)"
  by (simp add: cast_rows_def all_rows_def comp_def)

lemma row_offset_cast_world:
  "row_offset (map (\<lambda>t. t\<lparr>trows := map (f t) (trows t)\<rparr>) datas) s = row_offset datas s"
  by (simp add: row_offset_def take_map length_concat comp_def)

lemma cast_rows_nth:
  assumes "s < length datas" and "row_offset datas s \<le> i" and "i < row_offset datas (Suc s)"
  shows "cast_rows cast datas ! i = cast (tdtype (datas ! s)) (tdtype (datas ! 0)) (all_rows datas ! i)"
proof -
  let ?w = "map (\<lambda>t. t\<lparr>trows := map (cast (tdtype t) (tdtype (datas ! 0))) (trows t)\<rparr>) datas"
  have k: "i - row_offset datas s < length (trows (datas ! s))"
    using assms by (simp add: row_offset_Suc)
  have "cast_rows cast datas ! i = trows (?w ! s) ! (i - row_offset ?w s)"
    unfolding cast_rows_as_world
    by (rule all_rows_nth) (use assms in \<open>simp_all add: row_offset_cast_world\<close>)
  also have "\<dots> = cast (tdtype (datas ! s)) (tdtype (datas ! 0)) (trows (datas ! s) ! (i - row_offset datas s))"
    using assms(1) k by (simp add: row_offset_cast_world)
  finally show ?thesis using all_rows_nth[OF assms] by simp
qed

lemma length_cast_rows: "length (cast_rows cast datas) = length (all_rows datas)"
  by (simp add: cast_rows_def all_rows_def length_concat comp_def)

lemma shuffle_data_rows_idx:
  assumes "shuffle_data cast datas rank world_size tids num_parts = Inr res"
  shows "trows res = map ((!) (cast_rows cast datas))
           (concat (map (\<lambda>s. concat (map (span_idx datas tids s) (owned world_size num_parts rank)))
              [0..<world_size]))"
proof -
  from shuffle_data_Inr_char[OF assms] have W: "world_size = length datas" by simp
  have "map (cast (tdtype (datas ! s)) (tdtype (datas ! 0)))
          (map ((!) (all_rows datas)) (concat (map (span_idx datas tids s) (owned world_size num_parts rank))))
        = map ((!) (cast_rows cast datas)) (concat (map (span_idx datas tids s) (owned world_size num_parts rank)))"
    if "s \<in> set [0..<world_size]" for s
  proof -
    have s: "s < length datas" using that W by simp
    show ?thesis
      using cast_rows_nth[OF s] span_idx_mem[of _ datas tids s] by (auto simp: comp_def)
  qed
  then have "trows res = concat (map (\<lambda>s. map ((!) (cast_rows cast datas))
              (concat (map (span_idx datas tids s) (owned world_size num_parts rank)))) [0..<world_size])"
    unfolding shuffle_data_rows[OF assms]
    by (intro arg_cong[where f = concat] map_cong refl)
  also have "\<dots> = map ((!) (cast_rows cast datas))
           (concat (map (\<lambda>s. concat (map (span_idx datas tids s) (owned world_size num_parts rank)))
              [0..<world_size]))"
    by (simp add: map_concat comp_def)
  finally show ?thesis .
qed

lemma chain_ranges_bounds:
  "chain_ranges a tids b \<Longrightarrow> a \<le> b \<and> (\<forall>x\<in>set tids. a \<le> fst x \<and> fst x \<le> snd x \<and> snd x \<le> b)"
proof (induction tids arbitrary: a)
  case Nil
  then show ?case by simp
next
  case (Cons x tids)
  obtain s e where x: "x = (s, e)" by (cases x)
  with Cons.prems have "s = a" "s \<le> e" "chain_ranges e tids b" by simp_all
  with Cons.IH[of e] x show ?case by fastforce
qed

lemma chain_ranges_ascending: "chain_ranges a tids b \<Longrightarrow> ascending_tids tids"
proof (induction tids arbitrary: a)
  case Nil
  then show ?case by (simp add: ascending_tids_def)
next
  case (Cons x tids)
  obtain s e where x: "x = (s, e)" by (cases x)
  with Cons.prems have c: "chain_ranges e tids b" by simp
  from chain_ranges_bounds[OF c] Cons.IH[OF c] x show ?case
    by (auto simp: ascending_tids_def)
qed

lemma chain_ranges_concat:
  "chain_ranges a tids b \<Longrightarrow> 0 \<le> a \<Longrightarrow>
   concat (map (\<lambda>x. [nat (fst x) ..< nat (snd x)]) tids) = [nat a ..< nat b]"
proof (induction tids arbitrary: a)
  case Nil
  then show ?case by simp
next
  case (Cons x tids)
  obtain s e where x: "x = (s, e)" by (cases x)
  with Cons.prems have se: "s = a" "s \<le> e" and c: "chain_ranges e tids b" by simp_all
  from chain_ranges_bounds[OF c] have eb: "e \<le> b" by simp
  have "concat (map (\<lambda>x. [nat (fst x) ..< nat (snd x)]) tids) = [nat e ..< nat b]"
    using Cons.IH[OF c] se Cons.prems(2) by simp
  then have "concat (map (\<lambda>x. [nat (fst x) ..< nat (snd x)]) (x # tids))
             = [nat a ..< nat e] @ [nat e ..< nat b]"
    using x se by simp
  also have "\<dots> = [nat a ..< nat b]"
    using se eb Cons.prems(2) by (metis le_Suc_ex nat_mono upt_add_eq_append)
  finally show ?case .
qed

lemma py_slice_middle:
  "py_slice (pre @ mid @ rest) (int (length pre)) (int (length pre) + int (length mid)) = mid"
proof -
  have "py_bound (length (pre @ mid @ rest)) (int (length pre)) = length pre"
    by (simp add: py_bound_def)
  moreover have "py_bound (length (pre @ mid @ rest)) (int (length pre) + int (length mid))
                 = length pre + length mid"
    by (simp add: py_bound_def nat_add_distrib)
  ultimately show ?thesis by (simp add: py_slice_def)
qed

lemma collect_loop_blocks:
  assumes "\<forall>p\<in>set ps. p < length tids"
    and "\<forall>p\<in>set ps. int (length (g p)) = snd (tids ! p) - fst (tids ! p)"
    and "trows node_data = pre @ concat (map g (filter (\<lambda>p. map_partid_rank p W = rank) ps))"
  shows "collect_loop node_data rank W tids ps (int (length pre))
         = Inr (map (\<lambda>p. (p, node_data\<lparr>trows := g p\<rparr>, [tids ! p]))
                  (filter (\<lambda>p. map_partid_rank p W = rank) ps))"
  using assms
proof (induction ps arbitrary: pre)
  case Nil
  then show ?case by simp
next
  case (Cons p ps)
  show ?case
  proof (cases "map_partid_rank p W = rank")
    case False
    with Cons show ?thesis by simp
  next
    case True
    obtain a b where ab: "tids ! p = (a, b)" by (cases "tids ! p")
    have len: "int (length (g p)) = b - a" using Cons.prems(2) ab by simp
    let ?rest = "concat (map g (filter (\<lambda>p. map_partid_rank p W = rank) ps))"
    have rows: "trows node_data = pre @ g p @ ?rest" using Cons.prems(3) True by simp
    have blk: "tslice node_data (int (length pre)) (int (length pre) + b - a) = node_data\<lparr>trows := g p\<rparr>"
      using py_slice_middle[of pre "g p" ?rest] len rows
      by (simp add: tslice_def add_diff_eq)
    have "trows node_data = (pre @ g p) @ ?rest" using rows by simp
    from Cons.IH[OF _ _ this] Cons.prems(1,2)
    have "collect_loop node_data rank W tids ps (int (length pre) + (b - a))
          = Inr (map (\<lambda>p. (p, node_data\<lparr>trows := g p\<rparr>, [tids ! p]))
                  (filter (\<lambda>p. map_partid_rank p W = rank) ps))"
      using len by simp
    with True ab blk Cons.prems(1) show ?thesis by simp
  qed
qed

lemma owned_sorted: "sorted_wrt (<) (owned W P r)"
  by (simp add: owned_def sorted_wrt_filter)

lemma owned_less: "p \<in> set (owned W P r) \<Longrightarrow> p < P"
  by (simp add: owned_def)

lemma shuffle_data_returns:
  assumes "rank < length datas" and "num_parts \<le> length tids"
    and sup: "\<forall>t\<in>set datas. supported t"
    and "\<forall>t\<in>set datas. trows t \<noteq> [] \<longrightarrow> tdim t = sh"
    and "tdim (datas ! 0) = sh \<or> data_dim_of (datas ! 0) = 1"
  shows "\<exists>res. shuffle_data cast datas rank (length datas) tids num_parts = Inr res"
proof -
  have "datas ! 0 \<in> set datas" using assms(1) by (cases datas) auto
  then have l0: "length (tdim (datas ! 0)) \<le> 1" using sup by (simp add: supported_def)
  have "\<forall>t\<in>set (received cast datas tids num_parts rank). tdim t = sh \<or> legacy_empty t"
    using send_entry_tdim[OF _ assms(4,5) l0] by (auto simp: received_def)
  from torch_cat_width[OF received_nonempty[OF assms(1)] this]
  obtain res where "torch_cat (received cast datas tids num_parts rank) = Inr res" by blast
  then show ?thesis
    using shuffle_data_char[OF assms(1) _ sup, of num_parts tids cast] assms(2) by auto
qed

lemma shuffle_data_ascending_rows:
  assumes res: "shuffle_data cast datas rank world_size tids num_parts = Inr res"
    and asc: "ascending_tids tids" and len: "num_parts \<le> length tids"
    and bound: "\<forall>p<num_parts. nat (snd (tids ! p)) \<le> length (all_rows datas)"
  shows "trows res = map ((!) (cast_rows cast datas))
           (concat (map (\<lambda>p. [nat (fst (tids ! p)) ..< nat (snd (tids ! p))])
              (owned world_size num_parts rank)))"
proof -
  from shuffle_data_Inr_char[OF res] have W: "world_size = length datas" by simp
  have l: "\<forall>p\<in>set (owned world_size num_parts rank). p < length tids"
    using owned_less len by fastforce
  have b: "\<forall>p\<in>set (owned world_size num_parts rank). nat (snd (tids ! p)) \<le> length (all_rows datas)"
    using owned_less bound by blast
  from shuffled_idx_eq[OF asc owned_sorted l b] shuffle_data_rows_idx[OF res] W
  show ?thesis by simp
qed

lemma sum_list_absent_rank:
  "k \<notin> set xs \<Longrightarrow> (\<Sum>r\<leftarrow>xs. if k = r then m else ({#} :: 'b multiset)) = {#}"
  by (induction xs) auto

lemma sum_list_present_rank:
  "distinct xs \<Longrightarrow> k \<in> set xs \<Longrightarrow> (\<Sum>r\<leftarrow>xs. if k = r then m else ({#} :: 'b multiset)) = m"
  by (induction xs) (auto simp: sum_list_absent_rank)

lemma sum_list_single_rank:
  "k < W \<Longrightarrow> (\<Sum>r\<leftarrow>[0..<W]. if k = r then m else ({#} :: 'b multiset)) = m"
  by (rule sum_list_present_rank) simp_all

lemma mset_regroup_by_rank:
  assumes "0 < W"
  shows "mset (concat (map (\<lambda>r. concat (map f (filter (\<lambda>p. map_partid_rank p W = r) xs))) [0..<W]))
         = mset (concat (map f xs))"
proof (induction xs)
  case Nil
  show ?case by (simp add: mset_concat comp_def)
next
  case (Cons x xs)
  have k: "map_partid_rank x W < W" using assms by (simp add: map_partid_rank_def)
  have "mset (concat (map (\<lambda>r. concat (map f (filter (\<lambda>p. map_partid_rank p W = r) (x # xs)))) [0..<W]))
        = (\<Sum>r\<leftarrow>[0..<W]. (if map_partid_rank x W = r then mset (f x) else {#})
              + mset (concat (map f (filter (\<lambda>p. map_partid_rank p W = r) xs))))"
    unfolding mset_concat map_map comp_def
    by (rule arg_cong[where f = sum_list], rule map_cong) (auto simp: mset_concat)
  also have "\<dots> = (\<Sum>r\<leftarrow>[0..<W]. if map_partid_rank x W = r then mset (f x) else {#})
        + (\<Sum>r\<leftarrow>[0..<W]. mset (concat (map f (filter (\<lambda>p. map_partid_rank p W = r) xs))))"
    by (simp add: sum_list_addf)
  also have "\<dots> = mset (f x) + mset (concat (map (\<lambda>r. concat (map f (filter (\<lambda>p. map_partid_rank p W = r) xs))) [0..<W]))"
    using sum_list_single_rank[OF k] by (simp add: mset_concat comp_def)
  finally show ?case using Cons by simp
qed


lemma py_slice_range:
  assumes "0 \<le> a" and "a \<le> b" and "nat b \<le> length xs"
  shows "py_slice xs a b = map ((!) xs) [nat a ..< nat b]"
proof -
  have "py_bound (length xs) a = nat a" "py_bound (length xs) b = nat b"
    using assms by (auto simp: py_bound_def)
  then show ?thesis using take_drop_map_nth[OF assms(3), of "nat a"] by (simp add: py_slice_def)
qed

lemma cast_rows_preserved:
  assumes "\<forall>t\<in>set datas. \<forall>x\<in>set (trows t). cast (tdtype t) (tdtype (datas ! 0)) x = x"
  shows "cast_rows cast datas = all_rows datas"
proof -
  have "map (\<lambda>t. map (cast (tdtype t) (tdtype (datas ! 0))) (trows t)) datas = map trows datas"
    using assms by (intro map_cong refl) (simp add: map_idI)
  then show ?thesis unfolding cast_rows_def all_rows_def by (rule arg_cong)
qed

lemma valid_tids_facts:
  assumes "valid_tids tids datas"
  shows "ascending_tids tids"
    and "\<forall>p<length tids. 0 \<le> fst (tids ! p) \<and> fst (tids ! p) \<le> snd (tids ! p)
            \<and> nat (snd (tids ! p)) \<le> length (all_rows datas)"
    and "concat (map (\<lambda>p. [nat (fst (tids ! p)) ..< nat (snd (tids ! p))]) [0..<length tids])
         = [0 ..< length (all_rows datas)]"
proof -
  have c: "chain_ranges 0 tids (int (length (all_rows datas)))"
    using assms by (simp add: valid_tids_def)
  show "ascending_tids tids" by (rule chain_ranges_ascending[OF c])
  show "\<forall>p<length tids. 0 \<le> fst (tids ! p) \<and> fst (tids ! p) \<le> snd (tids ! p)
            \<and> nat (snd (tids ! p)) \<le> length (all_rows datas)"
    using chain_ranges_bounds[OF c] by (auto simp: nat_le_iff)
  have "map (\<lambda>p. [nat (fst (tids ! p)) ..< nat (snd (tids ! p))]) [0..<length tids]
        = map (\<lambda>x. [nat (fst x) ..< nat (snd x)]) tids"
    by (rule nth_equalityI) simp_all
  then show "concat (map (\<lambda>p. [nat (fst (tids ! p)) ..< nat (snd (tids ! p))]) [0..<length tids])
         = [0 ..< length (all_rows datas)]"
    using chain_ranges_concat[OF c] by simp
qed



lemma slash_notin_str_of_nat: "CHR ''/'' \<notin> set (str_of_nat n)"
proof (induction n rule: str_of_nat.induct)
  case (1 n)
  have d: "digit_char k \<noteq> CHR ''/''" if "k < 10" for k
  proof -
    from that have "k \<in> {0,1,2,3,4,5,6,7,8,9}" by auto
    then show ?thesis by (auto simp: digit_char_def)
  qed
  show ?case
  proof (cases "n < 10")
    case True
    then show ?thesis using d[of n] by (subst str_of_nat.simps) simp
  next
    case False
    then show ?thesis using 1 d[of "n mod 10"] by (subst str_of_nat.simps) simp
  qed
qed

lemma shuffle_data_valid_rows:
  assumes res: "shuffle_data cast datas rank world_size tids num_parts = Inr res"
    and P: "num_parts = length tids" and valid: "valid_tids tids datas"
  shows "trows res = concat (map (\<lambda>p. map ((!) (cast_rows cast datas))
                                  [nat (fst (tids ! p)) ..< nat (snd (tids ! p))])
                         (owned world_size num_parts rank))"
proof -
  note f = valid_tids_facts[OF valid]
  have "trows res = map ((!) (cast_rows cast datas))
           (concat (map (\<lambda>p. [nat (fst (tids ! p)) ..< nat (snd (tids ! p))])
              (owned world_size num_parts rank)))"
    by (rule shuffle_data_ascending_rows[OF res f(1)]) (use P f(2) in auto)
  then show ?thesis by (simp add: map_concat comp_def)
qed

text \<open>
  Claim C1, as amended. In a world whose id ranges, one per partition, are contiguous,
  non-overlapping and cover the virtual concatenation of the local arrays in rank order:
  when the calls of \<open>_shuffle_data\<close> of all ranks return, the rows of the returned tensors
  together are, as a multiset, the rows of all inputs, each cast to rank 0's element type
  (line 111); they are the input rows themselves whenever that cast changes no row. Nothing
  is asked of the shapes, and ranks without rows take part like the others.
\<close>

theorem shuffle_data_preserves_row_multiset:
  assumes "world_size = length datas" and "num_parts = length tids"
    and "valid_tids tids datas"
    and "map (\<lambda>r. shuffle_data cast datas r world_size tids num_parts) [0..<world_size]
           = map Inr outs"
  shows "mset (concat (map trows outs)) = mset (cast_rows cast datas) \<and>
         ((\<forall>t\<in>set datas. \<forall>x\<in>set (trows t). cast (tdtype t) (tdtype (datas ! 0)) x = x)
            \<longrightarrow> mset (concat (map trows outs)) = mset (all_rows datas))"
proof -
  let ?C = "cast_rows cast datas"
  let ?g = "\<lambda>p. map ((!) ?C) [nat (fst (tids ! p)) ..< nat (snd (tids ! p))]"
  note f = valid_tids_facts[OF assms(3)]
  have len: "length outs = world_size"
    using arg_cong[OF assms(4), of length] by simp
  have each: "trows (outs ! r) = concat (map ?g (owned world_size num_parts r))"
    if "r < world_size" for r
  proof -
    have "map (\<lambda>r. shuffle_data cast datas r world_size tids num_parts) [0..<world_size] ! r
          = map Inr outs ! r" using assms(4) by simp
    then have "shuffle_data cast datas r world_size tids num_parts = Inr (outs ! r)"
      using that len by simp
    from shuffle_data_valid_rows[OF this assms(2,3)] show ?thesis .
  qed
  have rows: "map trows outs = map (\<lambda>r. concat (map ?g (owned world_size num_parts r))) [0..<world_size]"
    by (rule nth_equalityI) (simp_all add: len each)
  have whole: "concat (map ?g [0..<num_parts]) = ?C"
  proof -
    have "concat (map ?g [0..<num_parts])
          = map ((!) ?C) (concat (map (\<lambda>p. [nat (fst (tids ! p)) ..< nat (snd (tids ! p))]) [0..<length tids]))"
      by (simp add: map_concat comp_def assms(2))
    also have "\<dots> = map ((!) ?C) [0..<length ?C]"
      unfolding f(3) by (simp add: length_cast_rows)
    also have "\<dots> = ?C" by (rule map_nth)
    finally show ?thesis .
  qed
  have b: "mset (concat (map trows outs)) = mset ?C"
  proof (cases "world_size = 0")
    case True
    then have "datas = []" "outs = []" using assms(1) len by simp_all
    then show ?thesis by (simp add: cast_rows_def)
  next
    case False
    then have "0 < world_size" by simp
    from mset_regroup_by_rank[OF this, of ?g "[0..<num_parts]"]
    show ?thesis unfolding rows whole owned_def .
  qed
  have c: "(\<forall>t\<in>set datas. \<forall>x\<in>set (trows t). cast (tdtype t) (tdtype (datas ! 0)) x = x)
              \<longrightarrow> mset (concat (map trows outs)) = mset (all_rows datas)"
    using b cast_rows_preserved[of datas cast] by auto
  from b c show ?thesis by blast
qed

theorem shuffle_data_preserves_row_multiset_witness:
  "map (\<lambda>r. shuffle_data int_cast
        [\<lparr>tdim = [], tdtype = Int64, trows = [10, 11, 12]\<rparr>,
         \<lparr>tdim = [], tdtype = Int64, trows = []\<rparr>,
         \<lparr>tdim = [], tdtype = Int64, trows = [13]\<rparr>] r 3 [(0, 1), (1, 2), (2, 3), (3, 4)] 4)
      [0..<3]
     = map Inr [\<lparr>tdim = [], tdtype = Int64, trows = [10, 13]\<rparr>,
                \<lparr>tdim = [], tdtype = Int64, trows = [11]\<rparr>,
                \<lparr>tdim = [], tdtype = Int64, trows = [12]\<rparr>] \<and>
   mset (concat (map trows [\<lparr>tdim = [], tdtype = Int64, trows = [10, 13]\<rparr>,
                \<lparr>tdim = [], tdtype = Int64, trows = [11]\<rparr>,
                \<lparr>tdim = [], tdtype = Int64, trows = [12 :: int]\<rparr>]))
     = mset (all_rows [\<lparr>tdim = [], tdtype = Int64, trows = [10, 11, 12]\<rparr>,
         \<lparr>tdim = [], tdtype = Int64, trows = []\<rparr>,
         \<lparr>tdim = [], tdtype = Int64, trows = [13]\<rparr>])"
proof -
  let ?D = "[\<lparr>tdim = [], tdtype = Int64, trows = [10, 11, 12 :: int]\<rparr>,
             \<lparr>tdim = [], tdtype = Int64, trows = []\<rparr>,
             \<lparr>tdim = [], tdtype = Int64, trows = [13]\<rparr>]"
  let ?T = "[(0, 1), (1, 2), (2, 3), (3, 4)] :: (int \<times> int) list"
  let ?O = "[\<lparr>tdim = [], tdtype = Int64, trows = [10, 13 :: int]\<rparr>,
                \<lparr>tdim = [], tdtype = Int64, trows = [11]\<rparr>,
                \<lparr>tdim = [], tdtype = Int64, trows = [12]\<rparr>]"
  have v: "valid_tids ?T ?D" by (simp add: valid_tids_def all_rows_def)
  have p: "\<forall>t\<in>set ?D. \<forall>x\<in>set (trows t). int_cast (tdtype t) (tdtype (?D ! 0)) x = x"
    by (simp add: int_cast_def)
  have h: "map (\<lambda>r. shuffle_data int_cast ?D r 3 ?T 4) [0..<3] = map Inr ?O"
    by code_simp
  have l1: "(3 :: nat) = length ?D" and l2: "(4 :: nat) = length ?T" by simp_all
  from conjunct2[OF shuffle_data_preserves_row_multiset[OF l1 l2 v h]] p
  have "mset (concat (map trows ?O)) = mset (all_rows ?D)" by blast
  with h show ?thesis by blast
qed

text \<open>
  Claim C1 as stated fails when a rank's element type is not rank 0's: the ranges are
  contiguous and cover both ranks, rank 0 holds the \<open>UInt8\<close> row \<open>1\<close> and rank 1 the \<open>Int64\<close>
  row \<open>300\<close>; rank 1 returns the row \<open>44\<close>, so the rows returned are not the rows put in.
\<close>

theorem shuffle_data_row_multiset_counterexample:
  "valid_tids [(0, 1), (1, 2)]
     [\<lparr>tdim = [], tdtype = UInt8, trows = [1 :: int]\<rparr>,
      \<lparr>tdim = [], tdtype = Int64, trows = [300]\<rparr>] \<and>
   shuffle_data int_cast
     [\<lparr>tdim = [], tdtype = UInt8, trows = [1]\<rparr>,
      \<lparr>tdim = [], tdtype = Int64, trows = [300]\<rparr>] 0 2 [(0, 1), (1, 2)] 2
     = Inr \<lparr>tdim = [], tdtype = UInt8, trows = [1]\<rparr> \<and>
   shuffle_data int_cast
     [\<lparr>tdim = [], tdtype = UInt8, trows = [1]\<rparr>,
      \<lparr>tdim = [], tdtype = Int64, trows = [300]\<rparr>] 1 2 [(0, 1), (1, 2)] 2
     = Inr \<lparr>tdim = [], tdtype = UInt8, trows = [44]\<rparr> \<and>
   mset ([1] @ [44])
     \<noteq> mset (all_rows [\<lparr>tdim = [], tdtype = UInt8, trows = [1 :: int]\<rparr>,
                       \<lparr>tdim = [], tdtype = Int64, trows = [300]\<rparr>])"
proof -
  have "shuffle_data int_cast
     [\<lparr>tdim = [], tdtype = UInt8, trows = [1]\<rparr>,
      \<lparr>tdim = [], tdtype = Int64, trows = [300]\<rparr>] 0 2 [(0, 1), (1, 2)] 2
     = Inr \<lparr>tdim = [], tdtype = UInt8, trows = [1]\<rparr>"
    by code_simp
  moreover have "shuffle_data int_cast
     [\<lparr>tdim = [], tdtype = UInt8, trows = [1]\<rparr>,
      \<lparr>tdim = [], tdtype = Int64, trows = [300]\<rparr>] 1 2 [(0, 1), (1, 2)] 2
     = Inr \<lparr>tdim = [], tdtype = UInt8, trows = [44]\<rparr>"
    by code_simp
  ultimately show ?thesis by (simp add: valid_tids_def all_rows_def)
qed

text \<open>
  Claim C2, as amended. When the partition id ranges, one per partition, are contiguous,
  non-overlapping and cover the concatenated data: after \<open>_shuffle_data\<close> has returned on a
  rank, the collection loop of \<open>get_dataset\<close> returns as well and cuts the shuffled tensor
  into one block per owned partition, in ascending partition order, each holding exactly the
  rows at the global ids of the partition's range, cast to rank 0's element type (line
  111); these are the original rows whenever that cast changes no row.
\<close>

theorem shuffle_then_collect_roundtrip:
  assumes "shuffle_data cast datas rank world_size tids num_parts = Inr res"
    and "num_parts = length tids" and "valid_tids tids datas"
  shows "\<exists>blocks.
           collect_loop res rank world_size tids [0..<num_parts] 0 = Inr blocks \<and>
           map fst blocks = owned world_size num_parts rank \<and>
           (\<forall>(p, blk, rng)\<in>set blocks.
              rng = [tids ! p] \<and>
              trows blk = py_slice (cast_rows cast datas) (fst (tids ! p)) (snd (tids ! p))) \<and>
           ((\<forall>t\<in>set datas. \<forall>x\<in>set (trows t). cast (tdtype t) (tdtype (datas ! 0)) x = x)
              \<longrightarrow> (\<forall>(p, blk, rng)\<in>set blocks.
                     trows blk = py_slice (all_rows datas) (fst (tids ! p)) (snd (tids ! p))))"
proof -
  note rows = shuffle_data_valid_rows[OF assms]
  note f = valid_tids_facts[OF assms(3)]
  let ?g = "\<lambda>p. map ((!) (cast_rows cast datas)) [nat (fst (tids ! p)) ..< nat (snd (tids ! p))]"
  let ?blocks = "map (\<lambda>p. (p, res\<lparr>trows := ?g p\<rparr>, [tids ! p])) (owned world_size num_parts rank)"
  have loop: "collect_loop res rank world_size tids [0..<num_parts] (int (length ([] :: 'a list)))
              = Inr (map (\<lambda>p. (p, res\<lparr>trows := ?g p\<rparr>, [tids ! p]))
                  (filter (\<lambda>p. map_partid_rank p world_size = rank) [0..<num_parts]))"
  proof (rule collect_loop_blocks)
    show "\<forall>p\<in>set [0..<num_parts]. p < length tids" using assms(2) by simp
    show "\<forall>p\<in>set [0..<num_parts]. int (length (?g p)) = snd (tids ! p) - fst (tids ! p)"
      using f(2) assms(2) by auto
    show "trows res = [] @ concat (map ?g (filter (\<lambda>p. map_partid_rank p world_size = rank) [0..<num_parts]))"
      using rows by (simp add: owned_def)
  qed
  have slice: "?g p = py_slice (cast_rows cast datas) (fst (tids ! p)) (snd (tids ! p))"
    if "p \<in> set (owned world_size num_parts rank)" for p
  proof -
    have "p < length tids" using owned_less[OF that] assms(2) by simp
    with f(2) have "0 \<le> fst (tids ! p)" "fst (tids ! p) \<le> snd (tids ! p)"
      "nat (snd (tids ! p)) \<le> length (cast_rows cast datas)"
      by (simp_all add: length_cast_rows)
    from py_slice_range[OF this] show ?thesis by simp
  qed
  have 1: "collect_loop res rank world_size tids [0..<num_parts] 0 = Inr ?blocks"
    using loop by (simp add: owned_def)
  have 2: "map fst ?blocks = owned world_size num_parts rank"
    by (simp add: comp_def)
  have 3: "\<forall>(p, blk, rng)\<in>set ?blocks.
              rng = [tids ! p] \<and>
              trows blk = py_slice (cast_rows cast datas) (fst (tids ! p)) (snd (tids ! p))"
    using slice by auto
  have 4: "(\<forall>t\<in>set datas. \<forall>x\<in>set (trows t). cast (tdtype t) (tdtype (datas ! 0)) x = x)
              \<longrightarrow> (\<forall>(p, blk, rng)\<in>set ?blocks.
                     trows blk = py_slice (all_rows datas) (fst (tids ! p)) (snd (tids ! p)))"
  proof
    assume "\<forall>t\<in>set datas. \<forall>x\<in>set (trows t). cast (tdtype t) (tdtype (datas ! 0)) x = x"
    then have "cast_rows cast datas = all_rows datas"
      using cast_rows_preserved[of datas cast] by blast
    with 3 show "\<forall>(p, blk, rng)\<in>set ?blocks.
            trows blk = py_slice (all_rows datas) (fst (tids ! p)) (snd (tids ! p))"
      by auto
  qed
  from 1 2 3 4 show ?thesis by blast
qed

theorem shuffle_then_collect_roundtrip_witness:
  "shuffle_data int_cast
     [\<lparr>tdim = [], tdtype = Int64, trows = [10, 11, 12]\<rparr>,
      \<lparr>tdim = [], tdtype = Int64, trows = [13]\<rparr>] 0 2 [(0, 2), (2, 3), (3, 4)] 3
     = Inr \<lparr>tdim = [], tdtype = Int64, trows = [10, 11, 13]\<rparr> \<and>
   collect_loop \<lparr>tdim = [], tdtype = Int64, trows = [10, 11, 13 :: int]\<rparr> 0 2
       [(0, 2), (2, 3), (3, 4)] [0..<3] 0
     = Inr [(0, \<lparr>tdim = [], tdtype = Int64, trows = [10, 11]\<rparr>, [(0, 2)]),
            (2, \<lparr>tdim = [], tdtype = Int64, trows = [13]\<rparr>, [(3, 4)])] \<and>
   py_slice (all_rows
     [\<lparr>tdim = [], tdtype = Int64, trows = [10, 11, 12 :: int]\<rparr>,
      \<lparr>tdim = [], tdtype = Int64, trows = [13]\<rparr>]) 0 2 = [10, 11] \<and>
   py_slice (all_rows
     [\<lparr>tdim = [], tdtype = Int64, trows = [10, 11, 12 :: int]\<rparr>,
      \<lparr>tdim = [], tdtype = Int64, trows = [13]\<rparr>]) 3 4 = [13]"
proof -
  let ?D = "[\<lparr>tdim = [], tdtype = Int64, trows = [10, 11, 12 :: int]\<rparr>,
             \<lparr>tdim = [], tdtype = Int64, trows = [13]\<rparr>]"
  let ?T = "[(0, 2), (2, 3), (3, 4)] :: (int \<times> int) list"
  have v: "valid_tids ?T ?D" by (simp add: valid_tids_def all_rows_def)
  have p: "\<forall>t\<in>set ?D. \<forall>x\<in>set (trows t). int_cast (tdtype t) (tdtype (?D ! 0)) x = x"
    by (simp add: int_cast_def)
  have h: "shuffle_data int_cast ?D 0 2 ?T 3 = Inr \<lparr>tdim = [], tdtype = Int64, trows = [10, 11, 13]\<rparr>"
    by code_simp
  have c: "collect_loop \<lparr>tdim = [], tdtype = Int64, trows = [10, 11, 13 :: int]\<rparr> 0 2 ?T [0..<3] 0
     = Inr [(0, \<lparr>tdim = [], tdtype = Int64, trows = [10, 11]\<rparr>, [(0, 2)]),
            (2, \<lparr>tdim = [], tdtype = Int64, trows = [13]\<rparr>, [(3, 4)])]"
    by code_simp
  from shuffle_then_collect_roundtrip[OF h _ v] p
  obtain blocks where
    2: "collect_loop \<lparr>tdim = [], tdtype = Int64, trows = [10, 11, 13 :: int]\<rparr> 0 2 ?T [0..<3] 0 = Inr blocks" and
    3: "\<forall>(p, blk, rng)\<in>set blocks.
          trows blk = py_slice (all_rows ?D) (fst (?T ! p)) (snd (?T ! p))"
    by auto
  from 2 c have b: "blocks = [(0, \<lparr>tdim = [], tdtype = Int64, trows = [10, 11]\<rparr>, [(0, 2)]),
            (2, \<lparr>tdim = [], tdtype = Int64, trows = [13]\<rparr>, [(3, 4)])]" by simp
  from 3 have "py_slice (all_rows ?D) 0 2 = [10, 11]"
     "py_slice (all_rows ?D) 3 4 = [13]" unfolding b by simp_all
  with h c show ?thesis by simp
qed

text \<open>
  Claim C2 as stated fails when a rank's element type is not rank 0's: rank 0 holds
  \<open>Int32\<close> rows, rank 1 the \<open>Int64\<close> row \<open>4294967301\<close> with global id 1. Rank 1 owns
  partition 1 with range \<open>[1, 2)\<close>; the block the collection loop cuts for it holds the row
  \<open>5\<close>, not the original row.
\<close>

theorem shuffle_then_collect_cast_counterexample:
  "shuffle_data int_cast
     [\<lparr>tdim = [], tdtype = Int32, trows = [1]\<rparr>,
      \<lparr>tdim = [], tdtype = Int64, trows = [4294967301]\<rparr>] 1 2 [(0, 1), (1, 2)] 2
     = Inr \<lparr>tdim = [], tdtype = Int32, trows = [5]\<rparr> \<and>
   collect_loop \<lparr>tdim = [], tdtype = Int32, trows = [5 :: int]\<rparr> 1 2 [(0, 1), (1, 2)] [0..<2] 0
     = Inr [(1, \<lparr>tdim = [], tdtype = Int32, trows = [5]\<rparr>, [(1, 2)])] \<and>
   py_slice (all_rows
     [\<lparr>tdim = [], tdtype = Int32, trows = [1]\<rparr>,
      \<lparr>tdim = [], tdtype = Int64, trows = [4294967301]\<rparr>]) 1 2 = [4294967301 :: int] \<and>
   [5] \<noteq> [4294967301 :: int]"
proof -
  have "shuffle_data int_cast
     [\<lparr>tdim = [], tdtype = Int32, trows = [1]\<rparr>,
      \<lparr>tdim = [], tdtype = Int64, trows = [4294967301]\<rparr>] 1 2 [(0, 1), (1, 2)] 2
     = Inr \<lparr>tdim = [], tdtype = Int32, trows = [5]\<rparr>"
    by code_simp
  moreover have "collect_loop \<lparr>tdim = [], tdtype = Int32, trows = [5 :: int]\<rparr> 1 2 [(0, 1), (1, 2)] [0..<2] 0
     = Inr [(1, \<lparr>tdim = [], tdtype = Int32, trows = [5]\<rparr>, [(1, 2)])]"
    by code_simp
  moreover have "py_slice (all_rows
     [\<lparr>tdim = [], tdtype = Int32, trows = [1]\<rparr>,
      \<lparr>tdim = [], tdtype = Int64, trows = [4294967301]\<rparr>]) 1 2 = [4294967301 :: int]"
    by code_simp
  ultimately show ?thesis by simp
qed



text \<open>
  Claim C4. On every rank whose preparation of the exchange returns, the all-gather has
  delivered rank 0's descriptor at index 0, and its width and element type are the ones
  used: the rank's own entry of the list handed to the exchange is the placeholder
  \<open>torch.zeros\<close> of rank 0's width and element type, and the entry for every destination
  (the rank's own being the slice it keeps) is that same placeholder when no slice was
  collected for it, and otherwise the concatenated slices cast to rank 0's element type.
  Whenever \<open>_shuffle_data\<close> returns, the tensor returned has rank 0's element type,
  whatever the element type of the rank's own data; when the ranks that hold rows have
  rank 0's shape (as they have when rank 0 holds rows and the shards of the feature have one
  shape), it has the width of rank 0's descriptor, which is 1 for the shapes \<open>(n,)\<close> and
  \<open>(n, 1)\<close> alike, and rank 0's shape if it has rows. Rank 0's descriptor is used whether
  or not rank 0 holds rows: when all arrays have one or two dimensions and an element type of
  the table, the arrays holding rows have one shape, and rank 0's array has that shape or
  announces the width 1 (as the empty array \<open>np.array([])\<close> does), the call returns, with rank
  0's element type, so that no error is raised when rank 0 is empty and the rows held
  elsewhere have another element type.
\<close>

theorem shuffle_data_dtype_from_rank0:
  "(\<forall>src<length datas. \<forall>data_input local_data.
      prepare cast datas src (length datas) tids num_parts = Inr (data_input, local_data) \<longrightarrow>
      (\<exists>data_shape_output.
         all_gather datas = Inr data_shape_output \<and>
         data_shape_output ! 0 ! 1 = data_dim_of (datas ! 0) \<and>
         REV_DATA_TYPE_ID (data_shape_output ! 0 ! 2) = Some (tdtype (datas ! 0))) \<and>
      data_input ! src = zeros_placeholder (data_dim_of (datas ! 0)) (tdtype (datas ! 0)) \<and>
      (\<forall>i<length datas.
         (if i = src then local_data else data_input ! i)
           = send_entry cast datas (length datas) tids num_parts src i)) \<and>
   (shuffle_data cast datas rank world_size tids num_parts = Inr res \<longrightarrow>
      tdtype res = tdtype (datas ! 0) \<and>
      ((\<forall>t\<in>set datas. trows t \<noteq> [] \<longrightarrow> tdim t = tdim (datas ! 0)) \<longrightarrow>
         data_dim_of res = data_dim_of (datas ! 0) \<and>
         (trows res \<noteq> [] \<longrightarrow> tdim res = tdim (datas ! 0)))) \<and>
   (rank < length datas \<and> num_parts \<le> length tids \<and> (\<forall>t\<in>set datas. supported t) \<and>
    (\<forall>t\<in>set datas. trows t \<noteq> [] \<longrightarrow> tdim t = sh) \<and>
    (tdim (datas ! 0) = sh \<or> data_dim_of (datas ! 0) = 1) \<longrightarrow>
      (\<exists>res'. shuffle_data cast datas rank (length datas) tids num_parts = Inr res' \<and>
              tdtype res' = tdtype (datas ! 0)))"
proof -
  let ?W = "length datas"
  let ?dim = "data_dim_of (datas ! 0)"
  let ?dt = "tdtype (datas ! 0)"
  let ?se = "send_entry cast datas ?W tids num_parts"
  let ?zp = "zeros_placeholder ?dim ?dt :: 'a tensor"
  have A: "\<forall>src<?W. \<forall>data_input local_data.
      prepare cast datas src ?W tids num_parts = Inr (data_input, local_data) \<longrightarrow>
      (\<exists>data_shape_output.
         all_gather datas = Inr data_shape_output \<and>
         data_shape_output ! 0 ! 1 = ?dim \<and>
         REV_DATA_TYPE_ID (data_shape_output ! 0 ! 2) = Some ?dt) \<and>
      data_input ! src = ?zp \<and>
      (\<forall>i<?W. (if i = src then local_data else data_input ! i) = ?se src i)"
  proof (intro allI impI)
    fix src data_input local_data
    assume src: "src < ?W"
      and prep: "prepare cast datas src ?W tids num_parts = Inr (data_input, local_data)"
    note sup = prepare_Inr_supported[OF prep]
    from prepare_char[OF src prepare_Inr_cond[OF prep] sup, of cast] prep
    have di: "data_input = (map (?se src) [0..<?W])[src := ?zp]" and ld: "local_data = ?se src src"
      by simp_all
    from all_gather_supported[OF sup] obtain dso where ag: "all_gather datas = Inr dso"
      and dso: "\<forall>s<?W. dso ! s ! 1 = data_dim_of (datas ! s) \<and>
                  DATA_TYPE_ID (tdtype (datas ! s)) = Some (dso ! s ! 2)" by blast
    have W0: "0 < ?W" using src by (cases datas) simp_all
    have 1: "\<exists>data_shape_output.
         all_gather datas = Inr data_shape_output \<and>
         data_shape_output ! 0 ! 1 = ?dim \<and>
         REV_DATA_TYPE_ID (data_shape_output ! 0 ! 2) = Some ?dt"
      using ag dso W0 REV_DATA_TYPE_ID_inverse by auto
    have 2: "data_input ! src = ?zp" using di src by simp
    have 3: "\<forall>i<?W. (if i = src then local_data else data_input ! i) = ?se src i"
      using di ld by simp
    from 1 2 3 show "(\<exists>data_shape_output.
         all_gather datas = Inr data_shape_output \<and>
         data_shape_output ! 0 ! 1 = ?dim \<and>
         REV_DATA_TYPE_ID (data_shape_output ! 0 ! 2) = Some ?dt) \<and>
      data_input ! src = ?zp \<and>
      (\<forall>i<?W. (if i = src then local_data else data_input ! i) = ?se src i)"
      by blast
  qed
  have dtype: "tdtype r = ?dt" if "shuffle_data cast datas rk W tids num_parts = Inr r" for r rk W
  proof -
    from shuffle_data_Inr_char[OF that]
    have cat: "torch_cat (received cast datas tids num_parts rk) = Inr r" by simp
    have "\<forall>t\<in>set (received cast datas tids num_parts rk). tdtype t = ?dt"
      by (auto simp: received_def send_entry_dtype)
    from torch_cat_dtype[OF cat this] show ?thesis .
  qed
  have B: "shuffle_data cast datas rank world_size tids num_parts = Inr res \<longrightarrow>
      tdtype res = ?dt \<and>
      ((\<forall>t\<in>set datas. trows t \<noteq> [] \<longrightarrow> tdim t = tdim (datas ! 0)) \<longrightarrow>
         data_dim_of res = ?dim \<and> (trows res \<noteq> [] \<longrightarrow> tdim res = tdim (datas ! 0)))"
  proof (intro impI conjI)
    assume h: "shuffle_data cast datas rank world_size tids num_parts = Inr res"
    show "tdtype res = ?dt" by (rule dtype[OF h])
    assume uni: "\<forall>t\<in>set datas. trows t \<noteq> [] \<longrightarrow> tdim t = tdim (datas ! 0)"
    from shuffle_data_Inr_char[OF h]
    have r: "rank < ?W" and cat: "torch_cat (received cast datas tids num_parts rank) = Inr res"
      by auto
    have "datas ! 0 \<in> set datas" using r by (cases datas) auto
    then have l0: "length (tdim (datas ! 0)) \<le> 1"
      using shuffle_data_Inr_supported[OF h] by (simp add: supported_def)
    have "\<forall>t\<in>set (received cast datas tids num_parts rank). tdim t = tdim (datas ! 0) \<or> legacy_empty t"
      using send_entry_tdim[OF _ uni _ l0] by (auto simp: received_def)
    from torch_cat_width[OF received_nonempty[OF r] this] cat
    have alt: "tdim res = tdim (datas ! 0) \<or>
          (tdim res = [] \<and> (\<forall>t\<in>set (received cast datas tids num_parts rank). legacy_empty t))"
      by auto
    show "data_dim_of res = ?dim"
      using alt
    proof
      assume "tdim res = tdim (datas ! 0)"
      then show ?thesis by (simp add: data_dim_of_def)
    next
      assume a: "tdim res = [] \<and> (\<forall>t\<in>set (received cast datas tids num_parts rank). legacy_empty t)"
      then have "legacy_empty (?se rank rank)" using received_own[OF r] by blast
      from send_entry_legacy_width[OF r uni this] a show ?thesis
        by (simp add: data_dim_of_def)
    qed
    show "tdim res = tdim (datas ! 0)" if ne: "trows res \<noteq> []"
      using alt
    proof
      assume "tdim res = tdim (datas ! 0)"
      then show ?thesis .
    next
      assume a: "tdim res = [] \<and> (\<forall>t\<in>set (received cast datas tids num_parts rank). legacy_empty t)"
      then have "concat (map trows (received cast datas tids num_parts rank)) = []"
        by (auto simp: legacy_empty_def)
      with torch_cat_rows[OF cat] ne show ?thesis by simp
    qed
  qed
  have C: "rank < ?W \<and> num_parts \<le> length tids \<and> (\<forall>t\<in>set datas. supported t) \<and>
    (\<forall>t\<in>set datas. trows t \<noteq> [] \<longrightarrow> tdim t = sh) \<and>
    (tdim (datas ! 0) = sh \<or> ?dim = 1) \<longrightarrow>
      (\<exists>res'. shuffle_data cast datas rank ?W tids num_parts = Inr res' \<and> tdtype res' = ?dt)"
  proof
    assume H: "rank < ?W \<and> num_parts \<le> length tids \<and> (\<forall>t\<in>set datas. supported t) \<and>
      (\<forall>t\<in>set datas. trows t \<noteq> [] \<longrightarrow> tdim t = sh) \<and>
      (tdim (datas ! 0) = sh \<or> ?dim = 1)"
    then have 1: "rank < ?W" and 2: "num_parts \<le> length tids"
      and 3: "\<forall>t\<in>set datas. supported t"
      and 4: "\<forall>t\<in>set datas. trows t \<noteq> [] \<longrightarrow> tdim t = sh"
      and 5: "tdim (datas ! 0) = sh \<or> ?dim = 1" by blast+
    from shuffle_data_returns[OF 1 2 3 4 5, of cast]
    obtain res' where "shuffle_data cast datas rank ?W tids num_parts = Inr res'" by blast
    with dtype[OF this] show "\<exists>res'. shuffle_data cast datas rank ?W tids num_parts = Inr res' \<and>
        tdtype res' = ?dt" by blast
  qed
  from A B C show ?thesis by blast
qed

theorem shuffle_data_dtype_from_rank0_witness:
  "shuffle_data int_cast
     [\<lparr>tdim = [], tdtype = Float64, trows = []\<rparr>,
      \<lparr>tdim = [], tdtype = Int64, trows = [7, 8]\<rparr>] 1 2 [(0, 1), (1, 2)] 2
     = Inr \<lparr>tdim = [], tdtype = Float64, trows = [8]\<rparr> \<and>
   tdtype \<lparr>tdim = [], tdtype = Float64, trows = [8 :: int]\<rparr>
     = tdtype ([\<lparr>tdim = [], tdtype = Float64, trows = [] :: int list\<rparr>,
                \<lparr>tdim = [], tdtype = Int64, trows = [7, 8]\<rparr>] ! 0) \<and>
   data_dim_of \<lparr>tdim = [], tdtype = Float64, trows = [8 :: int]\<rparr>
     = data_dim_of ([\<lparr>tdim = [], tdtype = Float64, trows = [] :: int list\<rparr>,
                \<lparr>tdim = [], tdtype = Int64, trows = [7, 8]\<rparr>] ! 0) \<and>
   prepare int_cast
     [\<lparr>tdim = [], tdtype = Float64, trows = []\<rparr>,
      \<lparr>tdim = [], tdtype = Int64, trows = [7, 8]\<rparr>] 1 2 [(0, 1), (1, 2)] 2
     = Inr ([\<lparr>tdim = [], tdtype = Float64, trows = [7]\<rparr>,
             \<lparr>tdim = [], tdtype = Float64, trows = []\<rparr>],
            \<lparr>tdim = [], tdtype = Float64, trows = [8]\<rparr>) \<and>
   [\<lparr>tdim = [], tdtype = Float64, trows = [7 :: int]\<rparr>,
    \<lparr>tdim = [], tdtype = Float64, trows = []\<rparr>] ! 1
     = zeros_placeholder
         (data_dim_of ([\<lparr>tdim = [], tdtype = Float64, trows = [] :: int list\<rparr>,
                \<lparr>tdim = [], tdtype = Int64, trows = [7, 8]\<rparr>] ! 0))
         (tdtype ([\<lparr>tdim = [], tdtype = Float64, trows = [] :: int list\<rparr>,
                \<lparr>tdim = [], tdtype = Int64, trows = [7, 8]\<rparr>] ! 0)) \<and>
   (\<exists>res'. shuffle_data int_cast
       [\<lparr>tdim = [], tdtype = Float64, trows = []\<rparr>,
        \<lparr>tdim = [], tdtype = Int64, trows = [7, 8]\<rparr>] 1
       (length [\<lparr>tdim = [], tdtype = Float64, trows = [] :: int list\<rparr>,
        \<lparr>tdim = [], tdtype = Int64, trows = [7, 8]\<rparr>]) [(0, 1), (1, 2)] 2 = Inr res' \<and>
      tdtype res' = Float64)"
proof -
  let ?D = "[\<lparr>tdim = [], tdtype = Float64, trows = [] :: int list\<rparr>,
             \<lparr>tdim = [], tdtype = Int64, trows = [7, 8]\<rparr>]"
  let ?T = "[(0, 1), (1, 2)] :: (int \<times> int) list"
  let ?R = "\<lparr>tdim = [], tdtype = Float64, trows = [8 :: int]\<rparr>"
  let ?di = "[\<lparr>tdim = [], tdtype = Float64, trows = [7 :: int]\<rparr>,
              \<lparr>tdim = [], tdtype = Float64, trows = []\<rparr>]"
  have h: "shuffle_data int_cast ?D 1 2 ?T 2 = Inr ?R"
    by code_simp
  have hp: "prepare int_cast ?D 1 2 ?T 2 = Inr (?di, ?R)"
    by code_simp
  note t = shuffle_data_dtype_from_rank0[of ?D int_cast ?T 2 1 2 ?R "[]"]
  have uni: "\<forall>t\<in>set ?D. trows t \<noteq> [] \<longrightarrow> tdim t = tdim (?D ! 0)" by simp
  have l: "length ?D = 2" by simp
  from conjunct1[OF conjunct2[OF t]] h uni
  have b: "tdtype ?R = tdtype (?D ! 0)" "data_dim_of ?R = data_dim_of (?D ! 0)" by blast+
  have l1: "(1 :: nat) < length ?D" by simp
  have hp': "prepare int_cast ?D 1 (length ?D) ?T 2 = Inr (?di, ?R)"
    unfolding l by (rule hp)
  note a0 = conjunct1[OF t, rule_format, of 1 ?di ?R, OF l1 hp']
  from conjunct1[OF conjunct2[OF a0]]
  have a: "?di ! 1 = zeros_placeholder (data_dim_of (?D ! 0)) (tdtype (?D ! 0))" .
  have H: "1 < length ?D \<and> (2 :: nat) \<le> length ?T \<and> (\<forall>t\<in>set ?D. supported t) \<and>
    (\<forall>t\<in>set ?D. trows t \<noteq> [] \<longrightarrow> tdim t = []) \<and>
    (tdim (?D ! 0) = [] \<or> data_dim_of (?D ! 0) = 1)"
    by (simp add: supported_def)
  from conjunct2[OF conjunct2[OF t], rule_format, OF H]
  have c: "\<exists>res'. shuffle_data int_cast ?D 1 (length ?D) ?T 2 = Inr res' \<and> tdtype res' = Float64"
    by simp
  from h hp a b c show ?thesis by blast
qed

section \<open>Dictionaries and the feature loops\<close>



lemma dict_set_subset: "set (dict_set d k v) \<subseteq> insert (k, v) (set d)"
  by (induction d) (auto split: if_splits)


lemma dict_get_distinct:
  assumes "distinct (map fst d)" and "(k, v) \<in> set d"
  shows "dict_get d k = Inr v"
  using assms by (simp add: dict_get_def)

lemma dict_get_mem: "dict_get d k = Inr v \<Longrightarrow> (k, v) \<in> set d"
  by (auto simp: dict_get_def split: option.splits dest: map_of_SomeD)








section \<open>The result of the assembler\<close>





section \<open>What is logged\<close>















end
